theory Spec2Isabelle
  imports
    Main
    "HOL-Library.AList"
    "HOL-Library.Char_ord"
    "HOL-Library.List_Lexorder"
    "HOL-Library.Multiset"
begin

section \<open>The schema model of \<^verbatim>\<open>cmd/oapi2proto/main.go\<close>\<close>

text \<open>
  The Go struct \<^verbatim>\<open>Schema\<close>, field by field. A pointer \<^verbatim>\<open>*Schema\<close> is a
  \<open>schema option\<close> (\<open>None\<close> is the nil pointer, which the decoder produces for a JSON
  \<^verbatim>\<open>null\<close>). A Go map is an association list with pairwise distinct keys; a map or
  slice that can be nil is wrapped in \<open>option\<close> where the code tests it against nil.
  Strings are byte lists; the functions of package \<^verbatim>\<open>strings\<close> are modelled on ASCII
  text, where bytes and runes coincide.
\<close>

datatype schema = Schema
  (Ref: string)
  (Type: string)
  (Format: string)
  (Enum: "string list")
  (Properties: "(string \<times> schema option) list option")
  (Items: "schema option")
  (OneOf: "schema option list option")
  (AllOf: "schema option list option")
  (AnyOf: "schema option list option")
  (Required: "string list")
  (Nullable: bool)
  (AddlProps: "schema option")
  (Description: string)

text \<open>\<^verbatim>\<open>&Schema{}\<close>: every field at its zero value.\<close>

definition emptySchema :: schema where
  "emptySchema = Schema [] [] [] [] None None None None None [] False None []"

text \<open>\<^verbatim>\<open>Document.Components.Schemas\<close>, the registry of named schemas.\<close>

type_synonym registry = "(string \<times> schema option) list"

record genContext =
  doc :: registry
  useOptional :: bool
  anyOfMode :: string
  sortFields :: bool

text \<open>
  The two objects that a run mutates: the set behind the map \<^verbatim>\<open>g.visited\<close> and the
  \<^verbatim>\<open>strings.Builder\<close>. The builder holds the sequence of writes, one \<open>line\<close> per
  \<^verbatim>\<open>WriteString\<close> call site; \<open>render\<close> below gives the text of each.
\<close>

datatype line =
    SyntaxLine
  | PackageLine string
  | GoPackageLine string
  | PrimitiveComment string
  | PrimitiveWrapper string string
  | EnumOpen string
  | EnumUnspecified string
  | EnumValue string string nat
  | EnumClose
  | MessageOpen string
  | FieldDecl string string string nat string
  | MapEntries string
  | OneofOpen
  | ChoiceField string nat nat
  | GroupClose
  | AnyofRepeated string nat
  | AnyofOpen
  | AltField string nat nat
  | MessageClose

record genState =
  visited :: "string set"
  builder :: "line list"

text \<open>
  What stops a run. \<open>NoSchemasFound\<close> is the \<^verbatim>\<open>fatal\<close> of \<^verbatim>\<open>main\<close>;
  \<open>NilDereference\<close> is the runtime panic on a field read through a nil pointer;
  \<open>FuelExhausted\<close> says that the call depth allowed to the model was used up
  (the Go recursion has no bound of its own).
\<close>

datatype error = NoSchemasFound | NilDereference | FuelExhausted

section \<open>Package \<^verbatim>\<open>strings\<close> and \<^verbatim>\<open>fmt\<close> on ASCII text\<close>

definition is_ascii :: "char \<Rightarrow> bool" where
  "is_ascii c \<longleftrightarrow> (of_char c :: nat) < 128"

definition is_lower :: "char \<Rightarrow> bool" where
  "is_lower r \<longleftrightarrow> CHR ''a'' \<le> r \<and> r \<le> CHR ''z''"

definition is_upper :: "char \<Rightarrow> bool" where
  "is_upper r \<longleftrightarrow> CHR ''A'' \<le> r \<and> r \<le> CHR ''Z''"

definition is_digit :: "char \<Rightarrow> bool" where
  "is_digit r \<longleftrightarrow> CHR ''0'' \<le> r \<and> r \<le> CHR ''9''"

definition upper_char :: "char \<Rightarrow> char" where
  "upper_char c = (if is_lower c then char_of (of_char c - (32::nat)) else c)"

definition lower_char :: "char \<Rightarrow> char" where
  "lower_char c = (if is_upper c then char_of (of_char c + (32::nat)) else c)"

definition strings_ToUpper :: "string \<Rightarrow> string" where
  "strings_ToUpper s = map upper_char s"

text \<open>\<^verbatim>\<open>strings.Split(s, sep)\<close> for a one-byte separator: never an empty slice.\<close>

fun strings_Split :: "string \<Rightarrow> char \<Rightarrow> string list" where
  "strings_Split [] sep = [[]]"
| "strings_Split (c # cs) sep =
     (if c = sep then [] # strings_Split cs sep
      else (case strings_Split cs sep of
              [] \<Rightarrow> [[c]]
            | p # ps \<Rightarrow> (c # p) # ps))"

definition strings_Join :: "string list \<Rightarrow> string" where
  "strings_Join parts = concat parts"

text \<open>\<^verbatim>\<open>strings.ReplaceAll(s, old, new)\<close> for one-byte \<open>old\<close> and \<open>new\<close>.\<close>

definition strings_ReplaceAll :: "string \<Rightarrow> char \<Rightarrow> char \<Rightarrow> string" where
  "strings_ReplaceAll s old new = map (\<lambda>c. if c = old then new else c) s"

definition is_space :: "char \<Rightarrow> bool" where
  "is_space c \<longleftrightarrow> c \<in> {CHR 0x09, CHR 0x0A, CHR 0x0B, CHR 0x0C, CHR 0x0D, CHR '' ''}"

definition trim_where :: "(char \<Rightarrow> bool) \<Rightarrow> string \<Rightarrow> string" where
  "trim_where P s = rev (dropWhile P (rev (dropWhile P s)))"

definition strings_TrimSpace :: "string \<Rightarrow> string" where
  "strings_TrimSpace s = trim_where is_space s"

text \<open>\<^verbatim>\<open>strings.Trim(s, "_")\<close>.\<close>

definition strings_Trim_underscore :: "string \<Rightarrow> string" where
  "strings_Trim_underscore s = trim_where (\<lambda>c. c = CHR ''_'') s"

text \<open>The verb \<^verbatim>\<open>%d\<close> of \<^verbatim>\<open>fmt.Sprintf\<close> on a number that is never negative.\<close>

fun fmt_d :: "nat \<Rightarrow> string" where
  "fmt_d n =
     (if n < 10 then [char_of (48 + n)]
      else fmt_d (n div 10) @ [char_of (48 + n mod 10)])"

declare fmt_d.simps [simp del]

section \<open>Naming normalizer\<close>

definition nonAlnumReplace :: "string \<Rightarrow> string" where
  "nonAlnumReplace s =
     map (\<lambda>c. if c = CHR ''-'' \<or> c = CHR ''.'' \<or> c = CHR '' '' then CHR ''_'' else c) s"

definition toEnumValue :: "string \<Rightarrow> string" where
  "toEnumValue s =
     strings_ReplaceAll (strings_ReplaceAll (strings_ToUpper s) (CHR ''-'') (CHR ''_''))
       (CHR '' '') (CHR ''_'')"

definition isAllUpper :: "string \<Rightarrow> bool" where
  "isAllUpper s \<longleftrightarrow> list_all (\<lambda>r. \<not> is_lower r) s"

text \<open>The body of the loop of \<^verbatim>\<open>upperCamel\<close>: what \<open>parts[i]\<close> holds after the pass.\<close>

definition upperCamelPart :: "string \<Rightarrow> string" where
  "upperCamelPart p =
     (if p = [] then p
      else if isAllUpper p \<and> length p > 1 then p
      else if length p = 1 then strings_ToUpper p
      else strings_ToUpper (take 1 p) @ drop 1 p)"

definition upperCamel :: "string \<Rightarrow> string" where
  "upperCamel s =
     (if s = [] then []
      else strings_Join (map upperCamelPart (strings_Split s (CHR ''_''))))"

definition normalizeMessage :: "string \<Rightarrow> string" where
  "normalizeMessage name = upperCamel (nonAlnumReplace name)"

text \<open>
  The loop of \<^verbatim>\<open>lowerSnake\<close>; the flag says whether the rune is at index 0.
\<close>

fun lowerSnakeLoop :: "bool \<Rightarrow> string \<Rightarrow> string" where
  "lowerSnakeLoop first [] = []"
| "lowerSnakeLoop first (r # rs) =
     (if is_upper r then
        (if first then [] else [CHR ''_'']) @ [lower_char r] @ lowerSnakeLoop False rs
      else if is_lower r \<or> is_digit r then r # lowerSnakeLoop False rs
      else CHR ''_'' # lowerSnakeLoop False rs)"

definition lowerSnake :: "string \<Rightarrow> string" where
  "lowerSnake s = strings_Trim_underscore (lowerSnakeLoop True (strings_TrimSpace s))"

definition normalizeField :: "string \<Rightarrow> string" where
  "normalizeField name = lowerSnake (nonAlnumReplace name)"

definition oneline :: "string \<Rightarrow> string" where
  "oneline s = strings_TrimSpace (strings_ReplaceAll s (CHR 0x0A) (CHR '' ''))"

definition isScalar :: "string \<Rightarrow> bool" where
  "isScalar t \<longleftrightarrow>
     t \<in> {''string'', ''int32'', ''int64'', ''double'', ''float'', ''bool'', ''bytes''}"

section \<open>Reference resolver\<close>

text \<open>
  \<^verbatim>\<open>resolveRef\<close> takes and returns a pointer. The result is nil exactly when the
  registry holds a nil pointer under the key.
\<close>

definition refKey :: "string \<Rightarrow> string" where
  "refKey r = last (strings_Split r (CHR ''/''))"

definition resolveRef :: "genContext \<Rightarrow> schema option \<Rightarrow> schema option" where
  "resolveRef g p =
     (case p of
        None \<Rightarrow> Some emptySchema
      | Some s \<Rightarrow>
          if Ref s = [] then Some s
          else (case map_of (doc g) (refKey (Ref s)) of
                  Some tgt \<Rightarrow> tgt
                | None \<Rightarrow> Some s))"

section \<open>Type mapper\<close>

definition scalarType :: "genContext \<Rightarrow> schema option \<Rightarrow> error + string" where
  "scalarType g p =
     (case resolveRef g p of
        None \<Rightarrow> Inl NilDereference
      | Some s \<Rightarrow>
          Inr (if Type s = ''string'' then ''string''
               else if Type s = ''integer'' then
                 (if Format s = ''int32'' then ''int32'' else ''int64'')
               else if Type s = ''number'' then
                 (if Format s = ''float'' then ''float'' else ''double'')
               else if Type s = ''boolean'' then ''bool''
               else ''string''))"

text \<open>
  \<^verbatim>\<open>fieldType\<close> returns the type text and the slice \<^verbatim>\<open>[]any{name, schema}\<close>, nil
  when no nested type is requested. It follows references into the registry, so its
  recursion is not structural: the first argument bounds the call depth.
\<close>

type_synonym nested = "(string \<times> schema) option"

fun fieldType :: "nat \<Rightarrow> genContext \<Rightarrow> string \<Rightarrow> schema option \<Rightarrow> error + (string \<times> nested)" where
  "fieldType 0 g name p = Inl FuelExhausted"
| "fieldType (Suc n) g name p =
     (case resolveRef g p of
        None \<Rightarrow> Inl NilDereference
      | Some s \<Rightarrow>
          if length (Enum s) > 0 then
            Inr (normalizeMessage name, Some (normalizeMessage name, s))
          else if Type s = ''string'' then
            (if Format s = ''byte'' \<or> Format s = ''binary'' then Inr (''bytes'', None)
             else Inr (''string'', None))
          else if Type s = ''integer'' then
            (if Format s = ''int32'' then Inr (''int32'', None) else Inr (''int64'', None))
          else if Type s = ''number'' then
            (if Format s = ''float'' then Inr (''float'', None) else Inr (''double'', None))
          else if Type s = ''boolean'' then Inr (''bool'', None)
          else if Type s = ''array'' then
            (case Items s of
               None \<Rightarrow> Inr (''repeated string'', None)
             | Some items \<Rightarrow>
                 (case fieldType n g (name @ ''_item'') (Some items) of
                    Inl e \<Rightarrow> Inl e
                  | Inr (et, nested) \<Rightarrow>
                      (case nested of
                         Some (nm, sch) \<Rightarrow> Inr (''repeated '' @ nm, nested)
                       | None \<Rightarrow> Inr (''repeated '' @ et, None))))
          else if Type s = ''object'' then
            (if length (case Properties s of None \<Rightarrow> [] | Some m \<Rightarrow> m) = 0
                \<and> AddlProps s \<noteq> None then
               (case fieldType n g (name @ ''_value'') (AddlProps s) of
                  Inl e \<Rightarrow> Inl e
                | Inr (vt, nested) \<Rightarrow>
                    (case nested of
                       Some (nm, sch) \<Rightarrow> Inr (''map<string,'' @ nm @ ''>'', nested)
                     | None \<Rightarrow> Inr (''map<string,'' @ vt @ ''>'', None)))
             else Inr (normalizeMessage name, Some (normalizeMessage name, s)))
          else if OneOf s \<noteq> None \<or> AllOf s \<noteq> None \<or> AnyOf s \<noteq> None then
            Inr (normalizeMessage name, Some (normalizeMessage name, s))
          else Inr (''string'', None))"

section \<open>Composition merger\<close>

definition propsOf :: "schema \<Rightarrow> (string \<times> schema option) list" where
  "propsOf s = (case Properties s of None \<Rightarrow> [] | Some m \<Rightarrow> m)"

definition setProperties :: "schema \<Rightarrow> (string \<times> schema option) list \<Rightarrow> schema" where
  "setProperties s m =
     Schema (Ref s) (Type s) (Format s) (Enum s) (Some m) (Items s) (OneOf s) (AllOf s)
       (AnyOf s) (Required s) (Nullable s) (AddlProps s) (Description s)"

text \<open>
  \<^verbatim>\<open>for k, v := range m { base[k] = v }\<close>. The order in which the runtime walks \<open>m\<close>
  does not change the map that results; the model walks the list from its head.
\<close>

definition copyInto :: "(string \<times> schema option) list \<Rightarrow> (string \<times> schema option) list
    \<Rightarrow> (string \<times> schema option) list" where
  "copyInto base m = foldl (\<lambda>acc kv. AList.update (fst kv) (snd kv) acc) base m"

definition mergeInto :: "schema \<Rightarrow> schema \<Rightarrow> schema" where
  "mergeInto base add = setProperties base (copyInto (propsOf base) (propsOf add))"

text \<open>
  The loop over \<^verbatim>\<open>s.AllOf\<close> in \<^verbatim>\<open>emitMessage\<close>; \<open>mergeInto\<close> reads through
  the pointer that \<open>resolveRef\<close> returned.
\<close>

fun mergeParts :: "genContext \<Rightarrow> schema \<Rightarrow> schema option list \<Rightarrow> error + schema" where
  "mergeParts g merged [] = Inr merged"
| "mergeParts g merged (part # parts) =
     (case resolveRef g part of
        None \<Rightarrow> Inl NilDereference
      | Some add \<Rightarrow> mergeParts g (mergeInto merged add) parts)"

definition sliceOf :: "'a list option \<Rightarrow> 'a list" where
  "sliceOf xs = (case xs of None \<Rightarrow> [] | Some ys \<Rightarrow> ys)"

text \<open>Lines 141 to 149 of \<^verbatim>\<open>emitMessage\<close>: the value of \<open>merged\<close> after both loops.\<close>

definition mergedSchema :: "genContext \<Rightarrow> schema \<Rightarrow> error + schema" where
  "mergedSchema g s =
     (case mergeParts g
             (Schema [] [] [] [] (Some []) None None None None (Required s) False None [])
             (sliceOf (AllOf s)) of
        Inl e \<Rightarrow> Inl e
      | Inr merged \<Rightarrow> Inr (setProperties merged (copyInto (propsOf merged) (propsOf s))))"

section \<open>Message and enum emitter\<close>

definition emitEnum :: "line list \<Rightarrow> string \<Rightarrow> schema \<Rightarrow> line list" where
  "emitEnum out name s =
     (let enumName = normalizeMessage name in
        out @ [EnumOpen enumName, EnumUnspecified (strings_ToUpper enumName)]
          @ map (\<lambda>iv. EnumValue (strings_ToUpper enumName) (toEnumValue (snd iv)) (fst iv + 1))
              (enumerate 0 (Enum s))
          @ [EnumClose])"

type_synonym pending = "string \<times> schema"

text \<open>
  The block that follows each call of \<open>fieldType\<close> in \<^verbatim>\<open>emitMessage\<close> (four copies of
  the same text): replace the type by the flattened name and queue the nested schema.
\<close>

definition flattenNested :: "string set \<Rightarrow> string \<Rightarrow> string \<times> nested \<Rightarrow> pending list
    \<Rightarrow> string \<times> pending list" where
  "flattenNested vis msgName r toEmit =
     (case snd r of
        None \<Rightarrow> (fst r, toEmit)
      | Some (baseNestedName, sch) \<Rightarrow>
          (let flatName = normalizeMessage (msgName @ ''_'' @ baseNestedName) in
             (flatName, if flatName \<notin> vis then toEmit @ [(flatName, sch)] else toEmit)))"

text \<open>\<^verbatim>\<open>merged.Properties[prop]\<close>: a missing key reads as the nil pointer.\<close>

definition mapIndex :: "(string \<times> schema option) list \<Rightarrow> string \<Rightarrow> schema option" where
  "mapIndex m k = (case map_of m k of None \<Rightarrow> None | Some p \<Rightarrow> p)"

text \<open>
  The loops of \<^verbatim>\<open>emitMessage\<close> carry the builder, \<open>fieldNum\<close> and \<open>toEmit\<close>.
  The loop over \<open>propNames\<close>:
\<close>

type_synonym body = "line list \<times> nat \<times> pending list"

fun emitProps :: "nat \<Rightarrow> genContext \<Rightarrow> string set \<Rightarrow> string \<Rightarrow> (string \<times> schema option) list
    \<Rightarrow> string list \<Rightarrow> body \<Rightarrow> error + body" where
  "emitProps n g vis msgName props [] st = Inr st"
| "emitProps n g vis msgName props (prop # rest) (out, fieldNum, toEmit) =
     (case fieldType n g prop (mapIndex props prop) of
        Inl e \<Rightarrow> Inl e
      | Inr r \<Rightarrow>
          (case mapIndex props prop of
             None \<Rightarrow> Inl NilDereference
           | Some ps \<Rightarrow>
               (let (ptype, toEmit') = flattenNested vis msgName r toEmit;
                    opt = (if Nullable ps \<and> useOptional g \<and> isScalar ptype
                           then ''optional '' else [])
                in emitProps n g vis msgName props rest
                     (out @ [FieldDecl opt ptype (normalizeField prop) fieldNum (Description ps)],
                      fieldNum + 1, toEmit'))))"

text \<open>The loop over \<^verbatim>\<open>s.OneOf\<close>; \<open>idx\<close> is its value before the increment.\<close>

fun emitChoices :: "nat \<Rightarrow> genContext \<Rightarrow> string set \<Rightarrow> string \<Rightarrow> schema option list \<Rightarrow> nat
    \<Rightarrow> body \<Rightarrow> error + body" where
  "emitChoices n g vis msgName [] idx st = Inr st"
| "emitChoices n g vis msgName (branch # rest) idx (out, fieldNum, toEmit) =
     (case fieldType n g (''choice_'' @ fmt_d (idx + 1)) branch of
        Inl e \<Rightarrow> Inl e
      | Inr r \<Rightarrow>
          (let (pt, toEmit') = flattenNested vis msgName r toEmit
           in emitChoices n g vis msgName rest (idx + 1)
                (out @ [ChoiceField pt (idx + 1) fieldNum], fieldNum + 1, toEmit')))"

text \<open>The loop over \<^verbatim>\<open>s.AnyOf\<close> in the mode that is not \<^verbatim>\<open>repeat\<close>.\<close>

fun emitAlts :: "nat \<Rightarrow> genContext \<Rightarrow> string set \<Rightarrow> string \<Rightarrow> schema option list \<Rightarrow> nat
    \<Rightarrow> body \<Rightarrow> error + body" where
  "emitAlts n g vis msgName [] idx st = Inr st"
| "emitAlts n g vis msgName (branch # rest) idx (out, fieldNum, toEmit) =
     (case fieldType n g (''alt_'' @ fmt_d (idx + 1)) branch of
        Inl e \<Rightarrow> Inl e
      | Inr r \<Rightarrow>
          (let (pt, toEmit') = flattenNested vis msgName r toEmit
           in emitAlts n g vis msgName rest (idx + 1)
                (out @ [AltField pt (idx + 1) fieldNum], fieldNum + 1, toEmit')))"

text \<open>
  The order in which \<^verbatim>\<open>range\<close> walks a Go map is chosen by the runtime. A run is
  given that choice as a function from the keys of the map to the keys in the order
  walked: at \<open>None\<close> for the loop of \<^verbatim>\<open>main\<close> over the registry, at \<open>Some name\<close> for
  the loop over \<^verbatim>\<open>merged.Properties\<close> in the call \<^verbatim>\<open>emitMessage(b, name, s)\<close>
  (there is at most one such call for a name, because of \<open>visited\<close>).
\<close>

type_synonym rangeOrder = "string option \<Rightarrow> string list \<Rightarrow> string list"

definition validOrder :: "rangeOrder \<Rightarrow> bool" where
  "validOrder ro \<longleftrightarrow> (\<forall>k ks. mset (ro k ks) = mset ks)"

definition propNamesOf :: "rangeOrder \<Rightarrow> genContext \<Rightarrow> string \<Rightarrow> (string \<times> schema option) list
    \<Rightarrow> string list" where
  "propNamesOf ro g name props =
     (let propNames = ro (Some name) (map fst props)
      in if sortFields g then sort propNames else propNames)"

text \<open>
  The recursive calls \<^verbatim>\<open>g.emitSchema(b, name, schema)\<close> inside \<^verbatim>\<open>emitMessage\<close> are
  the parameter \<open>rec\<close>; \<open>emitSchema\<close> below passes itself with a smaller depth.

  The map block (lines 191 to 198):
\<close>

type_synonym emitter = "genState \<Rightarrow> string \<Rightarrow> schema option \<Rightarrow> error + genState"

definition emitMapEntries :: "emitter \<Rightarrow> nat \<Rightarrow> genContext \<Rightarrow> schema
    \<Rightarrow> (string \<times> schema option) list \<Rightarrow> genState \<Rightarrow> error + genState" where
  "emitMapEntries rec n g s props st =
     (if AddlProps s \<noteq> None \<and> length props = 0 then
        (case fieldType n g ''value'' (AddlProps s) of
           Inl e \<Rightarrow> Inl e
         | Inr (valType, nested) \<Rightarrow>
             (case (case nested of
                      None \<Rightarrow> Inr st
                    | Some (nm, sch) \<Rightarrow> rec st nm (Some sch)) of
                Inl e \<Rightarrow> Inl e
              | Inr st' \<Rightarrow> Inr (st'\<lparr>builder := builder st' @ [MapEntries valType]\<rparr>)))
      else Inr st)"

text \<open>The oneOf block (lines 200 to 219).\<close>

definition emitOneOf :: "nat \<Rightarrow> genContext \<Rightarrow> string set \<Rightarrow> string \<Rightarrow> schema \<Rightarrow> body
    \<Rightarrow> error + body" where
  "emitOneOf n g vis msgName s st =
     (case st of (out, fieldNum, toEmit) \<Rightarrow>
        if length (sliceOf (OneOf s)) > 0 then
          (case emitChoices n g vis msgName (sliceOf (OneOf s)) 0
                  (out @ [OneofOpen], fieldNum, toEmit) of
             Inl e \<Rightarrow> Inl e
           | Inr (out', fieldNum', toEmit') \<Rightarrow> Inr (out' @ [GroupClose], fieldNum', toEmit'))
        else Inr st)"

text \<open>The anyOf block (lines 220 to 253).\<close>

definition emitAnyOf :: "nat \<Rightarrow> genContext \<Rightarrow> string set \<Rightarrow> string \<Rightarrow> schema \<Rightarrow> body
    \<Rightarrow> error + body" where
  "emitAnyOf n g vis msgName s st =
     (case st of (out, fieldNum, toEmit) \<Rightarrow>
        (case sliceOf (AnyOf s) of
           [] \<Rightarrow> Inr st
         | first # others \<Rightarrow>
             if anyOfMode g = ''repeat'' then
               (case fieldType n g ''anyof_value'' first of
                  Inl e \<Rightarrow> Inl e
                | Inr r \<Rightarrow>
                    (let (pt, toEmit') = flattenNested vis msgName r toEmit
                     in Inr (out @ [AnyofRepeated pt fieldNum], fieldNum + 1, toEmit')))
             else
               (case emitAlts n g vis msgName (first # others) 0
                       (out @ [AnyofOpen], fieldNum, toEmit) of
                  Inl e \<Rightarrow> Inl e
                | Inr (out', fieldNum', toEmit') \<Rightarrow>
                    Inr (out' @ [GroupClose], fieldNum', toEmit'))))"

text \<open>The loop over \<open>toEmit\<close> after the closing brace (lines 256 to 259).\<close>

fun drain :: "emitter \<Rightarrow> genState \<Rightarrow> pending list \<Rightarrow> error + genState" where
  "drain rec st [] = Inr st"
| "drain rec st (p # ps) =
     (case rec st (fst p) (Some (snd p)) of
        Inl e \<Rightarrow> Inl e
      | Inr st' \<Rightarrow> drain rec st' ps)"

definition emitMessage :: "emitter \<Rightarrow> nat \<Rightarrow> rangeOrder \<Rightarrow> genContext \<Rightarrow> genState \<Rightarrow> string
    \<Rightarrow> schema \<Rightarrow> error + genState" where
  "emitMessage rec n ro g st name s =
     (let msgName = normalizeMessage name;
          out0 = builder st @ [MessageOpen msgName]
      in case mergedSchema g s of
           Inl e \<Rightarrow> Inl e
         | Inr merged \<Rightarrow>
             (case emitProps n g (visited st) msgName (propsOf merged)
                     (propNamesOf ro g name (propsOf merged)) (out0, 1, []) of
                Inl e \<Rightarrow> Inl e
              | Inr (out1, fieldNum1, toEmit1) \<Rightarrow>
                  (case emitMapEntries rec n g s (propsOf merged) (st\<lparr>builder := out1\<rparr>) of
                     Inl e \<Rightarrow> Inl e
                   | Inr st2 \<Rightarrow>
                       (case emitOneOf n g (visited st2) msgName s
                               (builder st2, fieldNum1, toEmit1) of
                          Inl e \<Rightarrow> Inl e
                        | Inr body3 \<Rightarrow>
                            (case emitAnyOf n g (visited st2) msgName s body3 of
                               Inl e \<Rightarrow> Inl e
                             | Inr (out4, fieldNum4, toEmit4) \<Rightarrow>
                                 drain rec (st2\<lparr>builder := out4 @ [MessageClose]\<rparr>)
                                   toEmit4)))))"

definition isMessageShaped :: "schema \<Rightarrow> bool" where
  "isMessageShaped resolved \<longleftrightarrow>
     Type resolved = ''object'' \<or> Properties resolved \<noteq> None \<or> AllOf resolved \<noteq> None
       \<or> OneOf resolved \<noteq> None \<or> AnyOf resolved \<noteq> None \<or> AddlProps resolved \<noteq> None"

primrec emitSchema :: "nat \<Rightarrow> rangeOrder \<Rightarrow> genContext \<Rightarrow> genState \<Rightarrow> string \<Rightarrow> schema option
    \<Rightarrow> error + genState" where
  "emitSchema 0 ro g st name p = Inl FuelExhausted"
| "emitSchema (Suc n) ro g st name p =
     (if name \<in> visited st then Inr st
      else
        (let st1 = st\<lparr>visited := insert name (visited st)\<rparr>
         in case resolveRef g p of
              None \<Rightarrow> Inl NilDereference
            | Some resolved \<Rightarrow>
                if length (Enum resolved) > 0 then
                  Inr (st1\<lparr>builder := emitEnum (builder st1) name resolved\<rparr>)
                else if isMessageShaped resolved then
                  emitMessage (emitSchema n ro g) n ro g st1 name resolved
                else
                  (case scalarType g (Some resolved) of
                     Inl e \<Rightarrow> Inl e
                   | Inr t \<Rightarrow>
                       Inr (st1\<lparr>builder := builder st1 @
                              [PrimitiveComment name,
                               PrimitiveWrapper (normalizeMessage name) t]\<rparr>))))"

section \<open>The run of \<^verbatim>\<open>main\<close> once the document is parsed\<close>

definition schemaNames :: "rangeOrder \<Rightarrow> genContext \<Rightarrow> string list" where
  "schemaNames ro g =
     (let names = ro None (map fst (doc g))
      in if sortFields g then sort names else names)"

fun emitAll :: "nat \<Rightarrow> rangeOrder \<Rightarrow> genContext \<Rightarrow> genState \<Rightarrow> string list \<Rightarrow> error + genState" where
  "emitAll n ro g st [] = Inr st"
| "emitAll n ro g st (name # names) =
     (case emitSchema n ro g st name (mapIndex (doc g) name) of
        Inl e \<Rightarrow> Inl e
      | Inr st' \<Rightarrow> emitAll n ro g st' names)"

text \<open>
  \<open>generate n ro pkg goPkg g\<close>: the writes of \<^verbatim>\<open>main\<close> for the flags \<open>pkg\<close>, \<open>goPkg\<close>
  and those held in \<open>g\<close>, on the registry \<open>doc g\<close>.
\<close>

definition generate :: "nat \<Rightarrow> rangeOrder \<Rightarrow> string \<Rightarrow> string \<Rightarrow> genContext \<Rightarrow> error + line list" where
  "generate n ro pkg goPkg g =
     (if length (doc g) = 0 then Inl NoSchemasFound
      else
        (case emitAll n ro g
                \<lparr>visited = {}, builder = [SyntaxLine, PackageLine pkg, GoPackageLine goPkg]\<rparr>
                (schemaNames ro g) of
           Inl e \<Rightarrow> Inl e
         | Inr st \<Rightarrow> Inr (builder st)))"

section \<open>The text of each write\<close>

definition nl :: string where
  "nl = [CHR 0x0A]"

definition dq :: string where
  "dq = [CHR 0x22]"

fun render :: "line \<Rightarrow> string" where
  "render SyntaxLine = ''syntax = '' @ dq @ ''proto3'' @ dq @ '';'' @ nl"
| "render (PackageLine pkg) = ''package '' @ pkg @ '';'' @ nl"
| "render (GoPackageLine goPkg) = ''option go_package = '' @ dq @ goPkg @ dq @ '';'' @ nl @ nl"
| "render (PrimitiveComment name) =
     ''// Primitive schema '' @ name @ '' promoted to wrapper message'' @ nl"
| "render (PrimitiveWrapper name t) =
     ''message '' @ name @ '' { '' @ t @ '' value = 1; }'' @ nl @ nl"
| "render (EnumOpen enumName) = ''enum '' @ enumName @ '' {'' @ nl"
| "render (EnumUnspecified upperName) = ''  '' @ upperName @ ''_UNSPECIFIED = 0;'' @ nl"
| "render (EnumValue upperName v i) =
     ''  '' @ upperName @ ''_'' @ v @ '' = '' @ fmt_d i @ '';'' @ nl"
| "render EnumClose = ''}'' @ nl @ nl"
| "render (MessageOpen msgName) = ''message '' @ msgName @ '' {'' @ nl"
| "render (FieldDecl opt ptype fname fieldNum description) =
     ''  '' @ opt @ ptype @ '' '' @ fname @ '' = '' @ fmt_d fieldNum @ '';''
       @ (if description \<noteq> [] then '' // '' @ oneline description else []) @ nl"
| "render (MapEntries valType) = ''  map<string,'' @ valType @ ''> entries = 1;'' @ nl"
| "render OneofOpen = ''  oneof one_of {'' @ nl"
| "render (ChoiceField pt idx fieldNum) =
     ''    '' @ pt @ '' choice_'' @ fmt_d idx @ '' = '' @ fmt_d fieldNum @ '';'' @ nl"
| "render GroupClose = ''  }'' @ nl"
| "render (AnyofRepeated pt fieldNum) =
     ''  repeated '' @ pt @ '' anyof_value = '' @ fmt_d fieldNum
       @ ''; // anyOf first schema repeated'' @ nl"
| "render AnyofOpen = ''  oneof any_of {'' @ nl"
| "render (AltField pt idx fieldNum) =
     ''    '' @ pt @ '' alt_'' @ fmt_d idx @ '' = '' @ fmt_d fieldNum @ '';'' @ nl"
| "render MessageClose = ''}'' @ nl @ nl"

definition outputText :: "line list \<Rightarrow> string" where
  "outputText ls = concat (map render ls)"

text \<open>The field number that a write declares, for the writes that declare a field.\<close>

fun fieldNumberOf :: "line \<Rightarrow> nat option" where
  "fieldNumberOf (FieldDecl opt ptype fname fieldNum description) = Some fieldNum"
| "fieldNumberOf (MapEntries valType) = Some 1"
| "fieldNumberOf (ChoiceField pt idx fieldNum) = Some fieldNum"
| "fieldNumberOf (AnyofRepeated pt fieldNum) = Some fieldNum"
| "fieldNumberOf (AltField pt idx fieldNum) = Some fieldNum"
| "fieldNumberOf other = None"

definition fieldNumbers :: "line list \<Rightarrow> nat list" where
  "fieldNumbers ls = List.map_filter fieldNumberOf ls"

section \<open>Predicates of the statements\<close>

text \<open>The four bytes at which \<open>normalizeMessage\<close> breaks a name into parts.\<close>

definition is_separator :: "char \<Rightarrow> bool" where
  "is_separator c \<longleftrightarrow> c = CHR ''_'' \<or> c = CHR ''-'' \<or> c = CHR ''.'' \<or> c = CHR '' ''"

text \<open>
  The names in the queue of a message all start from the name of that message:
  each is \<open>normalizeMessage (msgName + "_" + base)\<close> for some \<open>base\<close>.
\<close>

definition prefixedNames :: "string \<Rightarrow> pending list \<Rightarrow> bool" where
  "prefixedNames msgName toEmit \<longleftrightarrow>
     list_all (\<lambda>p. \<exists>base. fst p = normalizeMessage (msgName @ ''_'' @ base)) toEmit"

section \<open>Inputs of the worked examples\<close>

text \<open>A node that carries only \<^verbatim>\<open>$ref\<close>, and a node that carries only \<^verbatim>\<open>type\<close>.\<close>

definition refNode :: "string \<Rightarrow> schema" where
  "refNode r = Schema r [] [] [] None None None None None [] False None []"

definition typeNode :: "string \<Rightarrow> schema" where
  "typeNode t = Schema [] t [] [] None None None None None [] False None []"

text \<open>An object node with the given properties.\<close>

definition objectNode :: "(string \<times> schema option) list \<Rightarrow> schema" where
  "objectNode ps = Schema [] ''object'' [] [] (Some ps) None None None None [] False None []"

text \<open>The context that \<^verbatim>\<open>main\<close> builds from the default flags, but for \<^verbatim>\<open>-sort\<close>.\<close>

definition ctxOf :: "registry \<Rightarrow> bool \<Rightarrow> genContext" where
  "ctxOf d srt = \<lparr>doc = d, useOptional = True, anyOfMode = ''oneof'', sortFields = srt\<rparr>"

text \<open>A registry where \<open>B\<close> is itself a reference to \<open>C\<close>.\<close>

definition chainDoc :: registry where
  "chainDoc = [(''B'', Some (refNode ''#/components/schemas/C'')),
               (''C'', Some (typeNode ''integer''))]"

text \<open>
  A node with its own property \<open>status: string\<close> and two allOf branches: the first
  declares \<open>status: integer\<close> and \<open>id: integer\<close>, the second \<open>id: string\<close>.
\<close>

definition mergeExample :: schema where
  "mergeExample =
     Schema [] ''object'' [] [] (Some [(''status'', Some (typeNode ''string''))]) None None
       (Some [Some (objectNode [(''status'', Some (typeNode ''integer'')),
                                (''id'', Some (typeNode ''integer''))]),
              Some (objectNode [(''id'', Some (typeNode ''string''))])])
       None [''status''] False None []"

definition mergeExampleMerged :: schema where
  "mergeExampleMerged =
     Schema [] [] [] [] (Some [(''status'', Some (typeNode ''string'')),
                               (''id'', Some (typeNode ''string''))])
       None None None None [''status''] False None []"

text \<open>Two walks of a map: in the order of the list that holds it, and backwards.\<close>

definition listedOrder :: rangeOrder where
  "listedOrder k ks = ks"

definition reversedOrder :: rangeOrder where
  "reversedOrder k ks = rev ks"

text \<open>A registry of two schemas, the first with two properties.\<close>

definition petDoc :: registry where
  "petDoc =
     [(''Pet'', Some (objectNode [(''name'', Some (typeNode ''string'')),
                                  (''age'', Some (typeNode ''integer''))])),
      (''Owner'', Some (typeNode ''string''))]"

text \<open>
  A node with \<^verbatim>\<open>additionalProperties: {type: string}\<close> and
  \<^verbatim>\<open>oneOf: [{type: string}, {type: integer}]\<close>, and no properties.
\<close>

definition taggedUnion :: schema where
  "taggedUnion =
     Schema [] [] [] [] None None
       (Some [Some (typeNode ''string''), Some (typeNode ''integer'')])
       None None [] False (Some (typeNode ''string'')) []"

text \<open>A map whose values are objects: \<^verbatim>\<open>additionalProperties\<close> is the given object.\<close>

definition mapOf :: "schema \<Rightarrow> schema" where
  "mapOf v = Schema [] ''object'' [] [] None None None None None [] False (Some v) []"

definition arrayOf :: "schema \<Rightarrow> schema" where
  "arrayOf v = Schema [] ''array'' [] [] None (Some v) None None None [] False None []"

definition bookDoc :: registry where
  "bookDoc = [(''AddressBook'', Some (mapOf (objectNode [(''city'', Some (typeNode ''string''))])))]"

definition postDoc :: registry where
  "postDoc =
     [(''Post'', Some (objectNode
        [(''tags'', Some (arrayOf (objectNode [(''label'', Some (typeNode ''string''))])))]))]"

definition twoMapsDoc :: registry where
  "twoMapsDoc =
     [(''Prices'', Some (mapOf (objectNode [(''amount'', Some (typeNode ''integer''))]))),
      (''Labels'', Some (mapOf (objectNode [(''text'', Some (typeNode ''string''))])))]"

section \<open>Properties of the naming normalizer and the reference resolver\<close>

subsection \<open>Splitting at a separator\<close>

lemma strings_Split_nonempty: "strings_Split s sep \<noteq> []"
  by (induction s) (auto split: list.splits)

lemma strings_Split_append:
  "strings_Split (xs @ sep # ys) sep = strings_Split xs sep @ strings_Split ys sep"
  by (induction xs) (auto simp: strings_Split_nonempty split: list.splits)

lemma strings_Split_no_sep: "sep \<notin> set s \<Longrightarrow> strings_Split s sep = [s]"
  by (induction s) (auto split: list.splits)

lemma refKey_last_segment:
  "CHR ''/'' \<notin> set name \<Longrightarrow> refKey (pre @ CHR ''/'' # name) = name"
  by (simp add: refKey_def strings_Split_append strings_Split_nonempty strings_Split_no_sep)

lemma refKey_bare: "CHR ''/'' \<notin> set name \<Longrightarrow> refKey name = name"
  by (simp add: refKey_def strings_Split_no_sep)

subsection \<open>Reference resolution\<close>

text \<open>
  C6: resolution is one hop. A node without \<^verbatim>\<open>$ref\<close> comes back unchanged; a node
  whose key is in the registry comes back as the registry's entry, whatever that entry
  is; so when the entry is itself a reference to a second entry, the result is that
  reference and not the second entry.
\<close>

theorem resolveRef_single_hop:
  "(Ref s = [] \<longrightarrow> resolveRef g (Some s) = Some s) \<and>
   (Ref s \<noteq> [] \<and> map_of (doc g) (refKey (Ref s)) = Some tgt \<longrightarrow> resolveRef g (Some s) = tgt) \<and>
   (Ref s \<noteq> [] \<and> map_of (doc g) (refKey (Ref s)) = Some (Some (refNode rb)) \<and>
      map_of (doc g) (refKey rb) = Some (Some c) \<and> c \<noteq> refNode rb
      \<longrightarrow> resolveRef g (Some s) = Some (refNode rb) \<and> resolveRef g (Some s) \<noteq> Some c)"
  by (auto simp: resolveRef_def)

theorem resolveRef_single_hop_witness:
  "Ref (refNode ''#/components/schemas/B'') \<noteq> [] \<and>
   map_of (doc (ctxOf chainDoc True)) (refKey (Ref (refNode ''#/components/schemas/B'')))
     = Some (Some (refNode ''#/components/schemas/C'')) \<and>
   map_of (doc (ctxOf chainDoc True)) (refKey ''#/components/schemas/C'')
     = Some (Some (typeNode ''integer'')) \<and>
   typeNode ''integer'' \<noteq> refNode ''#/components/schemas/C'' \<and>
   resolveRef (ctxOf chainDoc True) (Some (refNode ''#/components/schemas/B''))
     = Some (refNode ''#/components/schemas/C'') \<and>
   resolveRef (ctxOf chainDoc True) (Some (refNode ''#/components/schemas/B''))
     \<noteq> Some (typeNode ''integer'')"
proof -
  have h1: "Ref (refNode ''#/components/schemas/B'') \<noteq> []"
    by (simp add: refNode_def)
  have h2: "map_of (doc (ctxOf chainDoc True)) (refKey (Ref (refNode ''#/components/schemas/B'')))
     = Some (Some (refNode ''#/components/schemas/C''))"
    by (simp add: refNode_def ctxOf_def chainDoc_def refKey_def)
  have h3: "map_of (doc (ctxOf chainDoc True)) (refKey ''#/components/schemas/C'')
     = Some (Some (typeNode ''integer''))"
    by (simp add: ctxOf_def chainDoc_def refKey_def)
  have h4: "typeNode ''integer'' \<noteq> refNode ''#/components/schemas/C''"
    by (simp add: refNode_def typeNode_def)
  from resolveRef_single_hop [of "refNode ''#/components/schemas/B''" "ctxOf chainDoc True"
      "Some (refNode ''#/components/schemas/C'')" "''#/components/schemas/C''"
      "typeNode ''integer''"] h1 h2 h3 h4
  show ?thesis by blast
qed

text \<open>
  C8: a reference whose key is not in the registry stops nothing. \<open>resolveRef\<close> returns
  the node it was given, and for a node that carries nothing but the reference (no enum,
  no type, no composition keyword) both type mappers answer \<open>string\<close>, at any depth
  allowance of at least one call.
\<close>

theorem dangling_ref_defaults_to_string:
  assumes "Ref s \<noteq> []" and "map_of (doc g) (refKey (Ref s)) = None"
    and "Enum s = []" and "Type s = []"
    and "OneOf s = None" and "AllOf s = None" and "AnyOf s = None"
  shows "resolveRef g (Some s) = Some s \<and>
         fieldType (Suc n) g name (Some s) = Inr (''string'', None) \<and>
         scalarType g (Some s) = Inr ''string''"
  using assms by (simp add: resolveRef_def scalarType_def)

theorem dangling_ref_defaults_to_string_witness:
  "Ref (refNode ''#/components/schemas/Missing'') \<noteq> [] \<and>
   map_of (doc (ctxOf chainDoc True)) (refKey (Ref (refNode ''#/components/schemas/Missing'')))
     = None \<and>
   resolveRef (ctxOf chainDoc True) (Some (refNode ''#/components/schemas/Missing''))
     = Some (refNode ''#/components/schemas/Missing'') \<and>
   fieldType (Suc 0) (ctxOf chainDoc True) ''owner''
       (Some (refNode ''#/components/schemas/Missing'')) = Inr (''string'', None) \<and>
   scalarType (ctxOf chainDoc True) (Some (refNode ''#/components/schemas/Missing''))
     = Inr ''string''"
proof -
  have h1: "Ref (refNode ''#/components/schemas/Missing'') \<noteq> []"
    by (simp add: refNode_def)
  have h2: "map_of (doc (ctxOf chainDoc True))
      (refKey (Ref (refNode ''#/components/schemas/Missing''))) = None"
    by (simp add: refNode_def ctxOf_def chainDoc_def refKey_def)
  have h3: "Enum (refNode ''#/components/schemas/Missing'') = []"
    and h4: "Type (refNode ''#/components/schemas/Missing'') = []"
    and h5: "OneOf (refNode ''#/components/schemas/Missing'') = None"
    and h6: "AllOf (refNode ''#/components/schemas/Missing'') = None"
    and h7: "AnyOf (refNode ''#/components/schemas/Missing'') = None"
    by (simp_all add: refNode_def)
  from dangling_ref_defaults_to_string [OF h1 h2 h3 h4 h5 h6 h7, of 0 "''owner''"] h1 h2
  show ?thesis by blast
qed

text \<open>
  C10: the registry is asked for the text after the last \<^verbatim>\<open>/\<close> of the reference and
  for nothing else. Whatever precedes that segment (the local prefix, a URL, or nothing
  at all), the result is the registry's entry for the segment when there is one, and the
  node itself when there is none.
\<close>

theorem resolveRef_matches_last_segment:
  assumes "Ref s \<noteq> []" and "CHR ''/'' \<notin> set name"
    and "Ref s = name \<or> (\<exists>pre. Ref s = pre @ CHR ''/'' # name)"
  shows "resolveRef g (Some s) =
           (case map_of (doc g) name of Some tgt \<Rightarrow> tgt | None \<Rightarrow> Some s)"
proof -
  from assms(2,3) have "refKey (Ref s) = name"
    by (auto simp: refKey_last_segment refKey_bare)
  with assms(1) show ?thesis
    by (simp add: resolveRef_def)
qed

theorem resolveRef_matches_last_segment_witness:
  "Ref (refNode ''https://example.com/other.yaml#/definitions/C'') \<noteq> [] \<and>
   CHR ''/'' \<notin> set ''C'' \<and>
   Ref (refNode ''https://example.com/other.yaml#/definitions/C'')
     = ''https://example.com/other.yaml#/definitions'' @ CHR ''/'' # ''C'' \<and>
   resolveRef (ctxOf chainDoc True)
       (Some (refNode ''https://example.com/other.yaml#/definitions/C''))
     = Some (typeNode ''integer'')"
proof -
  have ref: "Ref (refNode ''https://example.com/other.yaml#/definitions/C'')
      = ''https://example.com/other.yaml#/definitions'' @ CHR ''/'' # ''C''"
    by (simp add: refNode_def)
  have nonempty: "Ref (refNode ''https://example.com/other.yaml#/definitions/C'') \<noteq> []"
    by (simp add: refNode_def)
  have noslash: "CHR ''/'' \<notin> set ''C''"
    by simp
  from ref have shape: "Ref (refNode ''https://example.com/other.yaml#/definitions/C'') = ''C''
      \<or> (\<exists>pre. Ref (refNode ''https://example.com/other.yaml#/definitions/C'')
            = pre @ CHR ''/'' # ''C'')"
    by blast
  show ?thesis
    using resolveRef_matches_last_segment [OF nonempty noslash shape, of "ctxOf chainDoc True"]
      ref nonempty noslash
    by (simp add: ctxOf_def chainDoc_def)
qed

subsection \<open>The type-name normalizer\<close>

lemma lower_code: "is_lower c \<Longrightarrow> 97 \<le> (of_char c :: nat) \<and> (of_char c :: nat) \<le> 122"
  by (simp add: is_lower_def less_eq_char_def)

lemma upper_char_code:
  assumes "is_lower c"
  shows "(of_char (upper_char c) :: nat) = of_char c - 32"
proof -
  from lower_code [OF assms] have "(of_char c :: nat) - 32 < 256"
    by arith
  then have "(of_char (char_of (of_char c - (32::nat))) :: nat) = of_char c - 32"
    by simp
  with assms show ?thesis by (simp add: upper_char_def)
qed

lemma upper_char_not_lower: "\<not> is_lower (upper_char c)"
proof (cases "is_lower c")
  case True
  from lower_code [OF True] upper_char_code [OF True]
  have "(of_char (upper_char c) :: nat) < 97"
    by arith
  then show ?thesis
    using lower_code [of "upper_char c"] by fastforce
next
  case False
  then show ?thesis by (simp add: upper_char_def)
qed

lemma separator_code: "is_separator d \<Longrightarrow> (of_char d :: nat) \<in> {95, 45, 46, 32}"
  unfolding is_separator_def by (elim disjE) simp_all

lemma upper_char_not_separator:
  assumes "\<not> is_separator c"
  shows "\<not> is_separator (upper_char c)"
proof (cases "is_lower c")
  case True
  show ?thesis
  proof
    assume "is_separator (upper_char c)"
    then have "(of_char (upper_char c) :: nat) \<in> {95, 45, 46, 32}"
      by (rule separator_code)
    with lower_code [OF True] upper_char_code [OF True] show False
      by auto
  qed
next
  case False
  with assms show ?thesis by (simp add: upper_char_def)
qed


lemma strings_Split_parts: "p \<in> set (strings_Split s sep) \<Longrightarrow> set p \<subseteq> set s - {sep}"
proof (induction s arbitrary: p)
  case Nil
  then show ?case by simp
next
  case (Cons c cs)
  show ?case
  proof (cases "c = sep")
    case True
    with Cons show ?thesis by auto
  next
    case False
    obtain q qs where split: "strings_Split cs sep = q # qs"
      using strings_Split_nonempty [of cs sep] by (cases "strings_Split cs sep") auto
    with False Cons.prems have "p = c # q \<or> p \<in> set qs"
      by simp
    moreover from Cons.IH [of q] split have "set q \<subseteq> set cs - {sep}"
      by simp
    moreover have "\<And>r. r \<in> set qs \<Longrightarrow> set r \<subseteq> set cs - {sep}"
      using Cons.IH split by simp
    ultimately show ?thesis
      using False by auto
  qed
qed

lemma upperCamelPart_chars: "set (upperCamelPart p) \<subseteq> set p \<union> upper_char ` set p"
proof (cases p)
  case Nil
  then show ?thesis by (simp add: upperCamelPart_def)
next
  case (Cons c cs)
  then show ?thesis by (auto simp: upperCamelPart_def strings_ToUpper_def)
qed

lemma upperCamelPart_head:
  assumes "p \<noteq> []"
  shows "upperCamelPart p \<noteq> [] \<and> \<not> is_lower (hd (upperCamelPart p))"
proof -
  from assms obtain c cs where p: "p = c # cs"
    by (cases p) auto
  show ?thesis
  proof (cases "isAllUpper p \<and> length p > 1")
    case True
    with p show ?thesis by (simp add: upperCamelPart_def isAllUpper_def)
  next
    case False
    with p show ?thesis
      by (cases cs) (simp_all add: upperCamelPart_def strings_ToUpper_def upper_char_not_lower)
  qed
qed

lemma upperCamelPart_empty: "upperCamelPart [] = []"
  by (simp add: upperCamelPart_def)

lemma concat_parts_head:
  "concat (map upperCamelPart ps) \<noteq> [] \<Longrightarrow> \<not> is_lower (hd (concat (map upperCamelPart ps)))"
proof (induction ps)
  case Nil
  then show ?case by simp
next
  case (Cons p ps)
  show ?case
  proof (cases "p = []")
    case True
    with Cons show ?thesis by (simp add: upperCamelPart_empty)
  next
    case False
    then show ?thesis using upperCamelPart_head [of p] by simp
  qed
qed

lemma upperCamelPart_fixed:
  assumes "p \<noteq> []" and "\<not> is_lower (hd p)"
  shows "upperCamelPart p = p"
proof -
  from assms obtain c cs where p: "p = c # cs" and c: "upper_char c = c"
    by (cases p) (auto simp: upper_char_def)
  then show ?thesis
    by (cases cs) (simp_all add: upperCamelPart_def strings_ToUpper_def)
qed


lemma nonAlnumReplace_chars:
  "d \<in> set (nonAlnumReplace s) \<Longrightarrow> d = CHR ''_'' \<or> \<not> is_separator d"
  by (auto simp: nonAlnumReplace_def is_separator_def)

lemma normalizeMessage_no_separator:
  assumes "c \<in> set (normalizeMessage s)"
  shows "\<not> is_separator c"
proof -
  let ?t = "nonAlnumReplace s"
  from assms have "c \<in> set (concat (map upperCamelPart (strings_Split ?t (CHR ''_''))))"
    by (simp add: normalizeMessage_def upperCamel_def strings_Join_def split: if_splits)
  then obtain p where p: "p \<in> set (strings_Split ?t (CHR ''_''))"
    and cp: "c \<in> set (upperCamelPart p)"
    by auto
  have clean: "\<not> is_separator d" if "d \<in> set p" for d
  proof -
    from strings_Split_parts [OF p] that have "d \<in> set ?t" "d \<noteq> CHR ''_''"
      by auto
    with nonAlnumReplace_chars [of d s] show ?thesis by simp
  qed
  from cp upperCamelPart_chars [of p] have "c \<in> set p \<or> (\<exists>d \<in> set p. c = upper_char d)"
    by auto
  with clean show ?thesis
    by (auto simp: upper_char_not_separator)
qed

lemma normalizeMessage_head:
  assumes "normalizeMessage s \<noteq> []"
  shows "\<not> is_lower (hd (normalizeMessage s))"
proof -
  from assms
  have "normalizeMessage s = concat (map upperCamelPart (strings_Split (nonAlnumReplace s) (CHR ''_'')))"
    by (simp add: normalizeMessage_def upperCamel_def strings_Join_def split: if_splits)
  with assms concat_parts_head [of "strings_Split (nonAlnumReplace s) (CHR ''_'')"]
  show ?thesis by simp
qed

lemma normalizeMessage_fixed:
  assumes "\<And>c. c \<in> set r \<Longrightarrow> \<not> is_separator c" and "r \<noteq> [] \<Longrightarrow> \<not> is_lower (hd r)"
  shows "normalizeMessage r = r"
proof (cases "r = []")
  case True
  then show ?thesis by (simp add: normalizeMessage_def upperCamel_def nonAlnumReplace_def)
next
  case False
  have "nonAlnumReplace r = map (\<lambda>c. c) r"
    unfolding nonAlnumReplace_def
    using assms(1) by (intro map_cong refl) (auto simp: is_separator_def)
  then have same: "nonAlnumReplace r = r"
    by simp
  from assms(1) have "CHR ''_'' \<notin> set r"
    by (auto simp: is_separator_def)
  then have "strings_Split r (CHR ''_'') = [r]"
    by (rule strings_Split_no_sep)
  with False same assms(2) show ?thesis
    by (simp add: normalizeMessage_def upperCamel_def strings_Join_def upperCamelPart_fixed)
qed

text \<open>
  C9: normalizing a type name twice gives what normalizing it once gives. The result of
  one pass holds none of the four separators and does not start with a lower-case
  letter, and on such a text the pass changes nothing. The functions of package
  \<^verbatim>\<open>strings\<close> are modelled on ASCII text, which is what the statement asks of \<open>s\<close>.
\<close>

theorem normalizeMessage_idempotent:
  assumes "list_all is_ascii s"
  shows "normalizeMessage (normalizeMessage s) = normalizeMessage s"
proof (rule normalizeMessage_fixed)
  show "\<not> is_separator c" if "c \<in> set (normalizeMessage s)" for c
    using that by (rule normalizeMessage_no_separator)
  show "\<not> is_lower (hd (normalizeMessage s))" if "normalizeMessage s \<noteq> []"
    using that by (rule normalizeMessage_head)
qed

theorem normalizeMessage_idempotent_witness:
  "list_all is_ascii ''user-profile.v2 API_key'' \<and>
   normalizeMessage ''user-profile.v2 API_key'' = ''UserProfileV2APIKey'' \<and>
   normalizeMessage (normalizeMessage ''user-profile.v2 API_key'')
     = normalizeMessage ''user-profile.v2 API_key''"
proof -
  have ascii: "list_all is_ascii ''user-profile.v2 API_key''"
    by (simp add: is_ascii_def)
  have val: "normalizeMessage ''user-profile.v2 API_key'' = ''UserProfileV2APIKey''"
    by code_simp
  from normalizeMessage_idempotent [OF ascii] ascii val show ?thesis
    by blast
qed

section \<open>Properties of the composition merger\<close>

lemma propsOf_setProperties: "propsOf (setProperties s m) = m"
  by (simp add: propsOf_def setProperties_def)

lemma Required_setProperties: "Required (setProperties s m) = Required s"
  by (simp add: setProperties_def)

lemma map_of_copyInto: "map_of (copyInto base m) = map_of base ++ map_of (rev m)"
proof (induction m arbitrary: base)
  case Nil
  show ?case by (simp add: copyInto_def)
next
  case (Cons kv m)
  have step: "copyInto base (kv # m) = copyInto (AList.update (fst kv) (snd kv) base) m"
    by (simp add: copyInto_def)
  have "map_of (AList.update (fst kv) (snd kv) base) = map_of base ++ map_of [kv]"
    by (cases kv) (simp add: update_conv')
  then have "map_of (copyInto base (kv # m)) = (map_of base ++ map_of [kv]) ++ map_of (rev m)"
    by (simp only: step Cons.IH)
  then show ?case
    by simp
qed

lemma map_of_rev_distinct: "distinct (map fst m) \<Longrightarrow> map_of (rev m) k = map_of m k"
proof (induction m)
  case Nil
  show ?case by simp
next
  case (Cons kv m)
  then have "fst kv \<notin> fst ` set m" by simp
  then have "map_of m (fst kv) = None"
    by (simp add: map_of_eq_None_iff)
  with Cons show ?case
    by (cases kv) (auto simp: map_add_def split: option.splits)
qed

lemma copyInto_lookup:
  assumes "distinct (map fst m)"
  shows "map_of (copyInto base m) k = (case map_of m k of Some v \<Rightarrow> Some v | None \<Rightarrow> map_of base k)"
  using map_of_rev_distinct [OF assms, of k]
  by (simp add: map_of_copyInto map_add_def)

lemma copyInto_lookup_absent:
  assumes "map_of m k = None"
  shows "map_of (copyInto base m) k = map_of base k"
proof -
  from assms have "k \<notin> fst ` set m"
    by (simp add: map_of_eq_None_iff)
  then have "map_of (rev m) k = None"
    using map_of_eq_None_iff [of "rev m" k] by simp
  then show ?thesis
    by (simp add: map_of_copyInto map_add_def)
qed

lemma Required_mergeParts:
  "mergeParts g base parts = Inr merged \<Longrightarrow> Required merged = Required base"
  by (induction parts arbitrary: base)
    (auto simp: mergeInto_def Required_setProperties split: option.splits)

lemma mergeParts_absent:
  assumes "mergeParts g base parts = Inr merged"
    and "\<forall>part \<in> set parts. \<forall>add. resolveRef g part = Some add \<longrightarrow> map_of (propsOf add) k = None"
  shows "map_of (propsOf merged) k = map_of (propsOf base) k"
  using assms
proof (induction parts arbitrary: base)
  case Nil
  then show ?case by simp
next
  case (Cons part parts)
  from Cons.prems(1) obtain add where add: "resolveRef g part = Some add"
    and rest: "mergeParts g (mergeInto base add) parts = Inr merged"
    by (auto split: option.splits)
  from Cons.prems(2) add have "map_of (propsOf add) k = None"
    by simp
  then have "map_of (propsOf (mergeInto base add)) k = map_of (propsOf base) k"
    by (simp add: mergeInto_def propsOf_setProperties copyInto_lookup_absent)
  with Cons.IH [OF rest] Cons.prems(2) show ?case
    by simp
qed

lemma mergeParts_last_wins:
  assumes "mergeParts g base (before @ part # after) = Inr merged"
    and "resolveRef g part = Some add"
    and "distinct (map fst (propsOf add))"
    and "map_of (propsOf add) k = Some v"
    and "\<forall>part' \<in> set after. \<forall>add'. resolveRef g part' = Some add' \<longrightarrow> map_of (propsOf add') k = None"
  shows "map_of (propsOf merged) k = Some v"
  using assms(1)
proof (induction before arbitrary: base)
  case Nil
  with assms(2) have rest: "mergeParts g (mergeInto base add) after = Inr merged"
    by simp
  from assms(3,4) have "map_of (propsOf (mergeInto base add)) k = Some v"
    by (simp add: mergeInto_def propsOf_setProperties copyInto_lookup)
  with mergeParts_absent [OF rest assms(5)] show ?case
    by simp
next
  case (Cons first before)
  then show ?case
    by (auto split: option.splits)
qed

lemma emitProps_single:
  assumes "mapIndex props k = mapIndex props' k"
  shows "emitProps n g vis msgName props [k] st = emitProps n g vis msgName props' [k] st"
  using assms
  by (cases st) (simp del: fieldType.simps cong: sum.case_cong option.case_cong)

text \<open>
  C7: after the merge, the required list is the node's own list; a property that the
  node declares itself is bound to the node's own declaration, so that the property
  loop writes for it the line it would write for that declaration alone; and a property
  that only branches declare is bound to the declaration of the last branch that has it. The premises on \<open>distinct\<close>
  say that the lists stand for Go maps.
\<close>

theorem allOf_merge_own_wins:
  assumes "mergedSchema g s = Inr merged"
    and "distinct (map fst (propsOf s))"
  shows "Required merged = Required s \<and>
         (\<forall>k pv. map_of (propsOf s) k = Some pv \<longrightarrow>
            map_of (propsOf merged) k = Some pv \<and> mapIndex (propsOf merged) k = pv \<and>
            (\<forall>n vis msgName st.
               emitProps n g vis msgName (propsOf merged) [k] st
                 = emitProps n g vis msgName [(k, pv)] [k] st)) \<and>
         (\<forall>k v before part after add.
            map_of (propsOf s) k = None \<and>
            sliceOf (AllOf s) = before @ part # after \<and>
            resolveRef g part = Some add \<and> distinct (map fst (propsOf add)) \<and>
            map_of (propsOf add) k = Some v \<and>
            (\<forall>part' \<in> set after. \<forall>add'. resolveRef g part' = Some add'
                \<longrightarrow> map_of (propsOf add') k = None)
            \<longrightarrow> map_of (propsOf merged) k = Some v)"
proof -
  let ?base = "Schema [] [] [] [] (Some []) None None None None (Required s) False None []"
  from assms(1) obtain m0 where m0: "mergeParts g ?base (sliceOf (AllOf s)) = Inr m0"
    and merged: "merged = setProperties m0 (copyInto (propsOf m0) (propsOf s))"
    by (auto simp: mergedSchema_def split: sum.splits)
  have req: "Required merged = Required s"
    using Required_mergeParts [OF m0] merged by (simp add: Required_setProperties)
  have look: "map_of (propsOf merged) k =
      (case map_of (propsOf s) k of Some v \<Rightarrow> Some v | None \<Rightarrow> map_of (propsOf m0) k)" for k
    using merged copyInto_lookup [OF assms(2)] by (simp add: propsOf_setProperties)
  have own: "map_of (propsOf merged) k = Some pv \<and> mapIndex (propsOf merged) k = pv \<and>
      (\<forall>n vis msgName st.
         emitProps n g vis msgName (propsOf merged) [k] st
           = emitProps n g vis msgName [(k, pv)] [k] st)"
    if "map_of (propsOf s) k = Some pv" for k pv
  proof -
    from that look [of k] have bound: "map_of (propsOf merged) k = Some pv"
      and read: "mapIndex (propsOf merged) k = pv"
      by (simp_all add: mapIndex_def)
    have "mapIndex (propsOf merged) k = mapIndex [(k, pv)] k"
      using read by (simp add: mapIndex_def)
    then have "emitProps n g vis msgName (propsOf merged) [k] st
        = emitProps n g vis msgName [(k, pv)] [k] st" for n vis msgName st
      by (rule emitProps_single)
    with bound read show ?thesis
      by blast
  qed
  have branch: "map_of (propsOf merged) k = Some v"
    if "map_of (propsOf s) k = None" and "sliceOf (AllOf s) = before @ part # after"
      and "resolveRef g part = Some add" and "distinct (map fst (propsOf add))"
      and "map_of (propsOf add) k = Some v"
      and "\<forall>part' \<in> set after. \<forall>add'. resolveRef g part' = Some add'
                \<longrightarrow> map_of (propsOf add') k = None"
    for k v before part after add
  proof -
    from m0 that(2) have "mergeParts g ?base (before @ part # after) = Inr m0"
      by simp
    from mergeParts_last_wins [OF this that(3) that(4) that(5) that(6)] look [of k] that(1)
    show ?thesis by simp
  qed
  from req own branch show ?thesis
    by blast
qed


theorem allOf_merge_own_wins_witness:
  "mergedSchema (ctxOf [(''Order'', Some mergeExample)] True) mergeExample = Inr mergeExampleMerged \<and>
   distinct (map fst (propsOf mergeExample)) \<and>
   Required mergeExampleMerged = Required mergeExample \<and>
   mapIndex (propsOf mergeExampleMerged) ''status'' = Some (typeNode ''string'') \<and>
   map_of (propsOf mergeExampleMerged) ''id'' = Some (Some (typeNode ''string'')) \<and>
   generate 3 listedOrder ''api.v1'' ''example.com/api'' (ctxOf [(''Order'', Some mergeExample)] True)
     = Inr [SyntaxLine, PackageLine ''api.v1'', GoPackageLine ''example.com/api'',
            MessageOpen ''Order'', FieldDecl [] ''string'' ''id'' 1 [],
            FieldDecl [] ''string'' ''status'' 2 [], MessageClose]"
proof -
  let ?g = "ctxOf [(''Order'', Some mergeExample)] True"
  let ?second = "Some (objectNode [(''id'', Some (typeNode ''string''))])"
  let ?first = "Some (objectNode [(''status'', Some (typeNode ''integer'')),
                                (''id'', Some (typeNode ''integer''))])"
  have run: "mergedSchema ?g mergeExample = Inr mergeExampleMerged"
    by code_simp
  have wf: "distinct (map fst (propsOf mergeExample))"
    by code_simp
  note merge = allOf_merge_own_wins [OF run wf]
  have own: "map_of (propsOf mergeExample) ''status'' = Some (Some (typeNode ''string''))"
    by code_simp
  have absent: "map_of (propsOf mergeExample) ''id'' = None"
    by code_simp
  have parts: "sliceOf (AllOf mergeExample) = [?first] @ ?second # []"
    by code_simp
  have res: "resolveRef ?g ?second = Some (objectNode [(''id'', Some (typeNode ''string''))])"
    by code_simp
  have wf2: "distinct (map fst (propsOf (objectNode [(''id'', Some (typeNode ''string''))])))"
    by code_simp
  have decl: "map_of (propsOf (objectNode [(''id'', Some (typeNode ''string''))])) ''id''
      = Some (Some (typeNode ''string''))"
    by code_simp
  have later: "\<forall>part' \<in> set []. \<forall>add'. resolveRef ?g part' = Some add'
      \<longrightarrow> map_of (propsOf add') ''id'' = None"
    by simp
  from merge have "Required mergeExampleMerged = Required mergeExample"
    by (elim conjE)
  moreover from merge own have "mapIndex (propsOf mergeExampleMerged) ''status'' = Some (typeNode ''string'')"
    by blast
  moreover from merge absent parts res wf2 decl later
  have "map_of (propsOf mergeExampleMerged) ''id'' = Some (Some (typeNode ''string''))"
    by blast
  moreover have "generate 3 listedOrder ''api.v1'' ''example.com/api'' ?g
     = Inr [SyntaxLine, PackageLine ''api.v1'', GoPackageLine ''example.com/api'',
            MessageOpen ''Order'', FieldDecl [] ''string'' ''id'' 1 [],
            FieldDecl [] ''string'' ''status'' 2 [], MessageClose]"
    by code_simp
  ultimately show ?thesis
    using run wf by blast
qed

section \<open>Order of emission\<close>

lemma validOrder_listedOrder: "validOrder listedOrder"
  by (simp add: validOrder_def listedOrder_def)

lemma validOrder_reversedOrder: "validOrder reversedOrder"
  by (simp add: validOrder_def reversedOrder_def)

lemma sort_walk:
  assumes "validOrder ro"
  shows "sort (ro k ks) = sort ks"
proof (rule properties_for_sort)
  from assms show "mset (sort ks) = mset (ro k ks)"
    by (simp add: validOrder_def)
  show "sorted (sort ks)"
    by simp
qed

lemma propNamesOf_sorted:
  "validOrder ro \<Longrightarrow> sortFields g \<Longrightarrow> propNamesOf ro g name props = sort (map fst props)"
  by (simp add: propNamesOf_def sort_walk)

lemma schemaNames_sorted:
  "validOrder ro \<Longrightarrow> sortFields g \<Longrightarrow> schemaNames ro g = sort (map fst (doc g))"
  by (simp add: schemaNames_def sort_walk)

lemma emitMessage_sorted:
  assumes "validOrder ro1" and "validOrder ro2" and "sortFields g"
  shows "emitMessage rec n ro1 g = emitMessage rec n ro2 g"
proof -
  have names: "propNamesOf ro1 g name = propNamesOf ro2 g name" for name
    by (intro ext) (simp add: propNamesOf_sorted assms)
  show ?thesis
    unfolding emitMessage_def names by (rule refl)
qed

lemma emitSchema_sorted:
  assumes "validOrder ro1" and "validOrder ro2" and "sortFields g"
  shows "emitSchema n ro1 g st name p = emitSchema n ro2 g st name p"
proof (induction n arbitrary: st name p)
  case 0
  show ?case by simp
next
  case (Suc n)
  have "emitSchema n ro1 g = emitSchema n ro2 g"
    by (intro ext) (rule Suc.IH)
  then have rec: "emitMessage (emitSchema n ro1 g) n ro1 g = emitMessage (emitSchema n ro2 g) n ro2 g"
    by (simp add: emitMessage_sorted [OF assms])
  show ?case
    unfolding emitSchema.simps rec by (rule refl)
qed

lemma emitAll_sorted:
  assumes "validOrder ro1" and "validOrder ro2" and "sortFields g"
  shows "emitAll n ro1 g st names = emitAll n ro2 g st names"
proof (induction names arbitrary: st)
  case Nil
  show ?case by simp
next
  case (Cons name names)
  then show ?case
    by (simp add: emitSchema_sorted [OF assms] cong: sum.case_cong)
qed

text \<open>
  C5, as the code has it: with sorting on, the writes of a run do not depend on how the
  runtime walks the maps, and schemas and properties are taken in the order of
  \<open>sort\<close> (byte-wise, as \<^verbatim>\<open>sort.Strings\<close>); with sorting off, they are taken in the
  order of the walk itself.
\<close>

theorem output_order_by_sort_flag:
  assumes "validOrder ro1" and "validOrder ro2"
  shows "(sortFields g \<longrightarrow>
            generate n ro1 pkg goPkg g = generate n ro2 pkg goPkg g \<and>
            schemaNames ro1 g = sort (map fst (doc g)) \<and>
            propNamesOf ro1 g name props = sort (map fst props)) \<and>
         (\<not> sortFields g \<longrightarrow>
            schemaNames ro1 g = ro1 None (map fst (doc g)) \<and>
            propNamesOf ro1 g name props = ro1 (Some name) (map fst props))"
proof (intro conjI impI)
  assume srt: "sortFields g"
  from schemaNames_sorted [OF assms(1) srt] schemaNames_sorted [OF assms(2) srt]
  show "generate n ro1 pkg goPkg g = generate n ro2 pkg goPkg g"
    by (simp add: generate_def emitAll_sorted [OF assms srt])
  from assms(1) srt show "schemaNames ro1 g = sort (map fst (doc g))"
    by (rule schemaNames_sorted)
  from assms(1) srt show "propNamesOf ro1 g name props = sort (map fst props)"
    by (rule propNamesOf_sorted)
next
  assume "\<not> sortFields g"
  then show "schemaNames ro1 g = ro1 None (map fst (doc g))"
    by (simp add: schemaNames_def)
next
  assume "\<not> sortFields g"
  then show "propNamesOf ro1 g name props = ro1 (Some name) (map fst props)"
    by (simp add: propNamesOf_def)
qed

text \<open>
  C5, as stated, fails with sorting off: the same registry and the same flags give two
  different outputs under two walks of the maps, and the order of the list that holds
  the registry is only one of them.
\<close>

theorem unsorted_output_follows_walk:
  "validOrder listedOrder \<and> validOrder reversedOrder \<and>
   generate 3 listedOrder ''api.v1'' ''example.com/api'' (ctxOf petDoc False)
     = Inr [SyntaxLine, PackageLine ''api.v1'', GoPackageLine ''example.com/api'',
            MessageOpen ''Pet'', FieldDecl [] ''string'' ''name'' 1 [],
            FieldDecl [] ''int64'' ''age'' 2 [], MessageClose,
            PrimitiveComment ''Owner'', PrimitiveWrapper ''Owner'' ''string''] \<and>
   generate 3 reversedOrder ''api.v1'' ''example.com/api'' (ctxOf petDoc False)
     = Inr [SyntaxLine, PackageLine ''api.v1'', GoPackageLine ''example.com/api'',
            PrimitiveComment ''Owner'', PrimitiveWrapper ''Owner'' ''string'',
            MessageOpen ''Pet'', FieldDecl [] ''int64'' ''age'' 1 [],
            FieldDecl [] ''string'' ''name'' 2 [], MessageClose] \<and>
   generate 3 listedOrder ''api.v1'' ''example.com/api'' (ctxOf petDoc False)
     \<noteq> generate 3 reversedOrder ''api.v1'' ''example.com/api'' (ctxOf petDoc False)"
proof -
  have a: "generate 3 listedOrder ''api.v1'' ''example.com/api'' (ctxOf petDoc False)
     = Inr [SyntaxLine, PackageLine ''api.v1'', GoPackageLine ''example.com/api'',
            MessageOpen ''Pet'', FieldDecl [] ''string'' ''name'' 1 [],
            FieldDecl [] ''int64'' ''age'' 2 [], MessageClose,
            PrimitiveComment ''Owner'', PrimitiveWrapper ''Owner'' ''string'']"
    by code_simp
  have b: "generate 3 reversedOrder ''api.v1'' ''example.com/api'' (ctxOf petDoc False)
     = Inr [SyntaxLine, PackageLine ''api.v1'', GoPackageLine ''example.com/api'',
            PrimitiveComment ''Owner'', PrimitiveWrapper ''Owner'' ''string'',
            MessageOpen ''Pet'', FieldDecl [] ''int64'' ''age'' 1 [],
            FieldDecl [] ''string'' ''name'' 2 [], MessageClose]"
    by code_simp
  from a b have "generate 3 listedOrder ''api.v1'' ''example.com/api'' (ctxOf petDoc False)
     \<noteq> generate 3 reversedOrder ''api.v1'' ''example.com/api'' (ctxOf petDoc False)"
    by simp
  with a b validOrder_listedOrder validOrder_reversedOrder show ?thesis
    by blast
qed

theorem output_order_by_sort_flag_witness:
  "validOrder listedOrder \<and> validOrder reversedOrder \<and>
   sortFields (ctxOf petDoc True) \<and> \<not> sortFields (ctxOf petDoc False) \<and>
   generate 3 listedOrder ''api.v1'' ''example.com/api'' (ctxOf petDoc True)
     = generate 3 reversedOrder ''api.v1'' ''example.com/api'' (ctxOf petDoc True) \<and>
   generate 3 listedOrder ''api.v1'' ''example.com/api'' (ctxOf petDoc True)
     = Inr [SyntaxLine, PackageLine ''api.v1'', GoPackageLine ''example.com/api'',
            PrimitiveComment ''Owner'', PrimitiveWrapper ''Owner'' ''string'',
            MessageOpen ''Pet'', FieldDecl [] ''int64'' ''age'' 1 [],
            FieldDecl [] ''string'' ''name'' 2 [], MessageClose] \<and>
   schemaNames listedOrder (ctxOf petDoc True) = [''Owner'', ''Pet''] \<and>
   schemaNames reversedOrder (ctxOf petDoc False) = [''Owner'', ''Pet''] \<and>
   schemaNames listedOrder (ctxOf petDoc False) = [''Pet'', ''Owner'']"
proof -
  have s1: "sortFields (ctxOf petDoc True)" and s2: "\<not> sortFields (ctxOf petDoc False)"
    by (simp_all add: ctxOf_def)
  note sorted_run = output_order_by_sort_flag [OF validOrder_listedOrder validOrder_reversedOrder,
      of "ctxOf petDoc True" 3 "''api.v1''" "''example.com/api''" "''Pet''" "[]"]
  note unsorted_run = output_order_by_sort_flag [OF validOrder_reversedOrder validOrder_listedOrder,
      of "ctxOf petDoc False" 3 "''api.v1''" "''example.com/api''" "''Pet''" "[]"]
  from sorted_run s1
  have eq: "generate 3 listedOrder ''api.v1'' ''example.com/api'' (ctxOf petDoc True)
     = generate 3 reversedOrder ''api.v1'' ''example.com/api'' (ctxOf petDoc True)"
    by blast
  have out: "generate 3 listedOrder ''api.v1'' ''example.com/api'' (ctxOf petDoc True)
     = Inr [SyntaxLine, PackageLine ''api.v1'', GoPackageLine ''example.com/api'',
            PrimitiveComment ''Owner'', PrimitiveWrapper ''Owner'' ''string'',
            MessageOpen ''Pet'', FieldDecl [] ''int64'' ''age'' 1 [],
            FieldDecl [] ''string'' ''name'' 2 [], MessageClose]"
    by code_simp
  have n1: "schemaNames listedOrder (ctxOf petDoc True) = [''Owner'', ''Pet'']"
    by code_simp
  from unsorted_run s2
  have "schemaNames reversedOrder (ctxOf petDoc False) = reversedOrder None (map fst (doc (ctxOf petDoc False)))"
    by blast
  then have n2: "schemaNames reversedOrder (ctxOf petDoc False) = [''Owner'', ''Pet'']"
    by (simp add: reversedOrder_def ctxOf_def petDoc_def)
  have n3: "schemaNames listedOrder (ctxOf petDoc False) = [''Pet'', ''Owner'']"
    by code_simp
  from s1 s2 eq out n1 n2 n3 validOrder_listedOrder validOrder_reversedOrder show ?thesis
    by blast
qed

section \<open>Numbering and queueing in a message body\<close>

lemma fieldNumbers_append: "fieldNumbers (xs @ ys) = fieldNumbers xs @ fieldNumbers ys"
  by (simp add: fieldNumbers_def map_filter_def)

lemma fieldNumbers_Nil: "fieldNumbers [] = []"
  by (simp add: fieldNumbers_def)

lemma fieldNumbers_Cons:
  "fieldNumbers (l # ls) =
     (case fieldNumberOf l of None \<Rightarrow> fieldNumbers ls | Some k \<Rightarrow> k # fieldNumbers ls)"
  by (simp add: fieldNumbers_def split: option.splits)

lemma flattenNested_queue:
  assumes "flattenNested vis msgName r toEmit = (pt, toEmit')" and "prefixedNames msgName toEmit"
  shows "prefixedNames msgName toEmit'"
  using assms
  by (auto simp: flattenNested_def prefixedNames_def Let_def split: option.splits if_splits)

lemma flattenNested_type:
  assumes "snd r = Some (base, sch)"
  shows "fst (flattenNested vis msgName r toEmit) = normalizeMessage (msgName @ ''_'' @ base)"
  using assms by (simp add: flattenNested_def Let_def)

lemma emitProps_appends:
  assumes "emitProps n g vis msgName props names (acc, num, toEmit) = Inr (acc', num', toEmit')"
    and "prefixedNames msgName toEmit"
  shows "\<exists>ls. acc' = acc @ ls \<and> fieldNumbers ls = [num ..< num'] \<and> num \<le> num'
           \<and> prefixedNames msgName toEmit'"
  using assms
proof (induction names arbitrary: acc num toEmit)
  case Nil
  then show ?case by (simp add: fieldNumbers_def)
next
  case (Cons pname rest)
  from Cons.prems(1) obtain r ps where r: "fieldType n g pname (mapIndex props pname) = Inr r"
    and ps: "mapIndex props pname = Some ps"
    by (auto split: sum.splits option.splits)
  obtain ptype te where fl: "flattenNested vis msgName r toEmit = (ptype, te)"
    by (cases "flattenNested vis msgName r toEmit") auto
  let ?decl = "FieldDecl (if Nullable ps \<and> useOptional g \<and> isScalar ptype then ''optional '' else [])
                 ptype (normalizeField pname) num (Description ps)"
  from Cons.prems(1) r ps fl
  have run: "emitProps n g vis msgName props rest (acc @ [?decl], num + 1, te) = Inr (acc', num', toEmit')"
    by simp
  from flattenNested_queue [OF fl Cons.prems(2)] have q: "prefixedNames msgName te" .
  from Cons.IH [OF run q] obtain ls where ls: "acc' = (acc @ [?decl]) @ ls"
    and nums: "fieldNumbers ls = [num + 1 ..< num']" and le: "num + 1 \<le> num'"
    and q': "prefixedNames msgName toEmit'"
    by blast
  have "fieldNumbers (?decl # ls) = num # [Suc num ..< num']"
    using nums by (simp add: fieldNumbers_def)
  also have "\<dots> = [num ..< num']"
    using le by (simp add: upt_conv_Cons)
  finally have "fieldNumbers (?decl # ls) = [num ..< num']" .
  with ls le q' show ?case
    by (intro exI [of _ "?decl # ls"]) simp
qed

lemma emitChoices_appends:
  assumes "emitChoices n g vis msgName branches idx (acc, num, toEmit) = Inr (acc', num', toEmit')"
    and "prefixedNames msgName toEmit"
  shows "\<exists>ls. acc' = acc @ ls \<and> fieldNumbers ls = [num ..< num'] \<and> num \<le> num'
           \<and> prefixedNames msgName toEmit'"
  using assms
proof (induction branches arbitrary: acc num toEmit idx)
  case Nil
  then show ?case by (simp add: fieldNumbers_def)
next
  case (Cons branch rest)
  from Cons.prems(1) obtain r where r: "fieldType n g (''choice_'' @ fmt_d (idx + 1)) branch = Inr r"
    by (auto split: sum.splits)
  obtain pt te where fl: "flattenNested vis msgName r toEmit = (pt, te)"
    by (cases "flattenNested vis msgName r toEmit") auto
  let ?decl = "ChoiceField pt (idx + 1) num"
  from Cons.prems(1) r fl
  have run: "emitChoices n g vis msgName rest (idx + 1) (acc @ [?decl], num + 1, te) = Inr (acc', num', toEmit')"
    by simp
  from flattenNested_queue [OF fl Cons.prems(2)] have q: "prefixedNames msgName te" .
  from Cons.IH [OF run q] obtain ls where ls: "acc' = (acc @ [?decl]) @ ls"
    and nums: "fieldNumbers ls = [num + 1 ..< num']" and le: "num + 1 \<le> num'"
    and q': "prefixedNames msgName toEmit'"
    by blast
  have "fieldNumbers (?decl # ls) = num # [Suc num ..< num']"
    using nums by (simp add: fieldNumbers_def)
  also have "\<dots> = [num ..< num']"
    using le by (simp add: upt_conv_Cons)
  finally have "fieldNumbers (?decl # ls) = [num ..< num']" .
  with ls le q' show ?case
    by (intro exI [of _ "?decl # ls"]) simp
qed

lemma emitAlts_appends:
  assumes "emitAlts n g vis msgName branches idx (acc, num, toEmit) = Inr (acc', num', toEmit')"
    and "prefixedNames msgName toEmit"
  shows "\<exists>ls. acc' = acc @ ls \<and> fieldNumbers ls = [num ..< num'] \<and> num \<le> num'
           \<and> prefixedNames msgName toEmit'"
  using assms
proof (induction branches arbitrary: acc num toEmit idx)
  case Nil
  then show ?case by (simp add: fieldNumbers_def)
next
  case (Cons branch rest)
  from Cons.prems(1) obtain r where r: "fieldType n g (''alt_'' @ fmt_d (idx + 1)) branch = Inr r"
    by (auto split: sum.splits)
  obtain pt te where fl: "flattenNested vis msgName r toEmit = (pt, te)"
    by (cases "flattenNested vis msgName r toEmit") auto
  let ?decl = "AltField pt (idx + 1) num"
  from Cons.prems(1) r fl
  have run: "emitAlts n g vis msgName rest (idx + 1) (acc @ [?decl], num + 1, te) = Inr (acc', num', toEmit')"
    by simp
  from flattenNested_queue [OF fl Cons.prems(2)] have q: "prefixedNames msgName te" .
  from Cons.IH [OF run q] obtain ls where ls: "acc' = (acc @ [?decl]) @ ls"
    and nums: "fieldNumbers ls = [num + 1 ..< num']" and le: "num + 1 \<le> num'"
    and q': "prefixedNames msgName toEmit'"
    by blast
  have "fieldNumbers (?decl # ls) = num # [Suc num ..< num']"
    using nums by (simp add: fieldNumbers_def)
  also have "\<dots> = [num ..< num']"
    using le by (simp add: upt_conv_Cons)
  finally have "fieldNumbers (?decl # ls) = [num ..< num']" .
  with ls le q' show ?case
    by (intro exI [of _ "?decl # ls"]) simp
qed


lemma emitOneOf_appends:
  assumes "emitOneOf n g vis msgName s (acc, num, toEmit) = Inr (acc', num', toEmit')"
    and "prefixedNames msgName toEmit"
  shows "\<exists>ls. acc' = acc @ ls \<and> fieldNumbers ls = [num ..< num'] \<and> num \<le> num'
           \<and> prefixedNames msgName toEmit'"
proof (cases "length (sliceOf (OneOf s)) > 0")
  case False
  with assms show ?thesis
    by (simp add: emitOneOf_def fieldNumbers_def)
next
  case True
  with assms(1) obtain mid where
    run: "emitChoices n g vis msgName (sliceOf (OneOf s)) 0 (acc @ [OneofOpen], num, toEmit)
            = Inr (mid, num', toEmit')"
    and acc': "acc' = mid @ [GroupClose]"
    by (auto simp: emitOneOf_def split: sum.splits)
  from emitChoices_appends [OF run assms(2)] obtain ls where
    "mid = (acc @ [OneofOpen]) @ ls" "fieldNumbers ls = [num ..< num']" "num \<le> num'"
    "prefixedNames msgName toEmit'"
    by blast
  with acc' show ?thesis
    by (intro exI [of _ "OneofOpen # ls @ [GroupClose]"])
      (simp add: fieldNumbers_append fieldNumbers_Cons fieldNumbers_Nil)
qed

lemma emitAnyOf_appends:
  assumes "emitAnyOf n g vis msgName s (acc, num, toEmit) = Inr (acc', num', toEmit')"
    and "prefixedNames msgName toEmit"
  shows "\<exists>ls. acc' = acc @ ls \<and> fieldNumbers ls = [num ..< num'] \<and> num \<le> num'
           \<and> prefixedNames msgName toEmit'"
proof (cases "sliceOf (AnyOf s)")
  case Nil
  with assms show ?thesis
    by (simp add: emitAnyOf_def fieldNumbers_def)
next
  case (Cons first others)
  show ?thesis
  proof (cases "anyOfMode g = ''repeat''")
    case True
    with assms(1) Cons obtain r where r: "fieldType n g ''anyof_value'' first = Inr r"
      by (auto simp: emitAnyOf_def split: sum.splits)
    obtain pt te where fl: "flattenNested vis msgName r toEmit = (pt, te)"
      by (cases "flattenNested vis msgName r toEmit") auto
    from assms(1) Cons True r fl
    have "acc' = acc @ [AnyofRepeated pt num]" "num' = num + 1" "toEmit' = te"
      by (simp_all add: emitAnyOf_def)
    with flattenNested_queue [OF fl assms(2)] show ?thesis
      by (simp add: fieldNumbers_def)
  next
    case False
    with assms(1) Cons obtain mid where
      run: "emitAlts n g vis msgName (first # others) 0 (acc @ [AnyofOpen], num, toEmit)
              = Inr (mid, num', toEmit')"
      and acc': "acc' = mid @ [GroupClose]"
      by (auto simp: emitAnyOf_def split: sum.splits)
    from emitAlts_appends [OF run assms(2)] obtain ls where
      "mid = (acc @ [AnyofOpen]) @ ls" "fieldNumbers ls = [num ..< num']" "num \<le> num'"
      "prefixedNames msgName toEmit'"
      by blast
    with acc' show ?thesis
      by (intro exI [of _ "AnyofOpen # ls @ [GroupClose]"])
        (simp add: fieldNumbers_append fieldNumbers_Cons fieldNumbers_Nil)
  qed
qed

lemma upt_join: "a \<le> b \<Longrightarrow> b \<le> c \<Longrightarrow> [a ..< b] @ [b ..< c] = [a ..< (c::nat)]"
  using upt_add_eq_append [of a b "c - b"] by simp

text \<open>
  A message whose map block does not run (no \<^verbatim>\<open>additionalProperties\<close>, or some
  property after the merge): what \<open>emitMessage\<close> writes is the opening line, a body
  whose field numbers are 1, 2, up to their count, and the closing line; only then are
  the queued schemas emitted, each under a name that starts from the name of the message.
\<close>

theorem message_without_map_field:
  assumes run: "emitMessage rec n ro g st name s = Inr st'"
    and merged: "mergedSchema g s = Inr merged"
    and nomap: "AddlProps s = None \<or> propsOf merged \<noteq> []"
  shows "\<exists>body toEmit.
           drain rec (st\<lparr>builder := builder st @ [MessageOpen (normalizeMessage name)] @ body
                                       @ [MessageClose]\<rparr>) toEmit = Inr st'
           \<and> fieldNumbers body = [1 ..< Suc (length (fieldNumbers body))]
           \<and> prefixedNames (normalizeMessage name) toEmit"
proof -
  let ?m = "normalizeMessage name"
  let ?open = "builder st @ [MessageOpen ?m]"
  have empty: "prefixedNames ?m []"
    by (simp add: prefixedNames_def)
  from run merged obtain out1 num1 te1 where
    props: "emitProps n g (visited st) ?m (propsOf merged) (propNamesOf ro g name (propsOf merged))
              (?open, 1, []) = Inr (out1, num1, te1)"
    by (auto simp: emitMessage_def Let_def split: sum.splits prod.splits)
  from nomap have skip: "emitMapEntries rec n g s (propsOf merged) (st\<lparr>builder := out1\<rparr>)
      = Inr (st\<lparr>builder := out1\<rparr>)"
    by (auto simp: emitMapEntries_def)
  from run merged props skip obtain out3 num3 te3 where
    oneof: "emitOneOf n g (visited st) ?m s (out1, num1, te1) = Inr (out3, num3, te3)"
    by (auto simp: emitMessage_def Let_def split: sum.splits prod.splits)
  from run merged props skip oneof obtain out4 num4 te4 where
    anyof: "emitAnyOf n g (visited st) ?m s (out3, num3, te3) = Inr (out4, num4, te4)"
    and fin: "drain rec (st\<lparr>builder := out4 @ [MessageClose]\<rparr>) te4 = Inr st'"
    by (auto simp: emitMessage_def Let_def split: sum.splits prod.splits)
  from emitProps_appends [OF props empty] obtain l1 where
    l1: "out1 = ?open @ l1" "fieldNumbers l1 = [1 ..< num1]" "1 \<le> num1" "prefixedNames ?m te1"
    by blast
  from emitOneOf_appends [OF oneof l1(4)] obtain l3 where
    l3: "out3 = out1 @ l3" "fieldNumbers l3 = [num1 ..< num3]" "num1 \<le> num3" "prefixedNames ?m te3"
    by blast
  from emitAnyOf_appends [OF anyof l3(4)] obtain l4 where
    l4: "out4 = out3 @ l4" "fieldNumbers l4 = [num3 ..< num4]" "num3 \<le> num4" "prefixedNames ?m te4"
    by blast
  let ?body = "l1 @ l3 @ l4"
  have nums: "fieldNumbers ?body = [1 ..< num4]"
    using l1(2,3) l3(2,3) l4(2,3) by (simp add: fieldNumbers_append upt_join)
  with l1(3) l3(3) l4(3) have "fieldNumbers ?body = [1 ..< Suc (length (fieldNumbers ?body))]"
    by simp
  moreover from fin l1(1) l3(1) l4(1)
  have "drain rec (st\<lparr>builder := builder st @ [MessageOpen ?m] @ ?body @ [MessageClose]\<rparr>) te4
      = Inr st'"
    by simp
  ultimately show ?thesis
    using l4(4) by blast
qed


text \<open>
  When \<open>fieldType\<close> asks for a nested type, the type text that is written is the
  flattened name and nothing else: it holds no space, so no \<open>repeated\<close> in front.
\<close>

lemma flattened_type_no_space:
  assumes "snd r = Some (base, sch)"
  shows "CHR '' '' \<notin> set (fst (flattenNested vis msgName r toEmit))"
proof
  assume "CHR '' '' \<in> set (fst (flattenNested vis msgName r toEmit))"
  then have "CHR '' '' \<in> set (normalizeMessage (msgName @ ''_'' @ base))"
    by (simp add: flattenNested_type [OF assms])
  then have "\<not> is_separator (CHR '' '')"
    by (rule normalizeMessage_no_separator)
  then show False
    by (simp add: is_separator_def)
qed

lemma flattened_type_not_repeated:
  assumes "snd r = Some (base, sch)"
  shows "fst (flattenNested vis msgName r toEmit) \<noteq> ''repeated '' @ elem"
proof
  assume "fst (flattenNested vis msgName r toEmit) = ''repeated '' @ elem"
  then have "CHR '' '' \<in> set (fst (flattenNested vis msgName r toEmit))"
    by simp
  with flattened_type_no_space [OF assms] show False
    by blast
qed

text \<open>The flattened name is the name of the message followed by the local name.\<close>

lemma nonAlnumReplace_clean:
  assumes "\<And>c. c \<in> set r \<Longrightarrow> c = CHR ''_'' \<or> \<not> is_separator c"
  shows "nonAlnumReplace r = r"
proof -
  have "nonAlnumReplace r = map (\<lambda>c. c) r"
    unfolding nonAlnumReplace_def
    using assms by (intro map_cong refl) (auto simp: is_separator_def)
  then show ?thesis by simp
qed

lemma upperCamelPart_normalized: "upperCamelPart (normalizeMessage a) = normalizeMessage a"
proof (cases "normalizeMessage a = []")
  case True
  then show ?thesis by (simp add: upperCamelPart_empty)
next
  case False
  from False normalizeMessage_head [OF False] show ?thesis
    by (rule upperCamelPart_fixed)
qed

lemma normalizeMessage_joined:
  "normalizeMessage (normalizeMessage a @ ''_'' @ normalizeMessage b)
     = normalizeMessage a @ normalizeMessage b"
proof -
  let ?A = "normalizeMessage a" and ?B = "normalizeMessage b"
  have no_us: "CHR ''_'' \<notin> set (normalizeMessage x)" for x
    using normalizeMessage_no_separator [of "CHR ''_''" x] by (auto simp: is_separator_def)
  have "nonAlnumReplace (?A @ ''_'' @ ?B) = ?A @ ''_'' @ ?B"
    by (rule nonAlnumReplace_clean) (auto dest: normalizeMessage_no_separator)
  moreover have "strings_Split (?A @ CHR ''_'' # ?B) (CHR ''_'') = [?A, ?B]"
    by (simp add: strings_Split_append strings_Split_no_sep no_us)
  moreover have "normalizeMessage (?A @ ''_'' @ ?B)
      = (if nonAlnumReplace (?A @ ''_'' @ ?B) = [] then []
         else concat (map upperCamelPart
                (strings_Split (nonAlnumReplace (?A @ ''_'' @ ?B)) (CHR ''_''))))"
    unfolding normalizeMessage_def [of "?A @ ''_'' @ ?B"] upperCamel_def strings_Join_def
    by (rule refl)
  ultimately show ?thesis
    by (simp add: upperCamelPart_normalized)
qed

section \<open>The depth allowance\<close>

lemma fieldType_nil: "resolveRef g p = None \<Longrightarrow> fieldType (Suc k) g name p = Inl NilDereference"
  by simp

lemma fieldType_array:
  assumes "resolveRef g p = Some s" and "Enum s = []" and "Type s = ''array''"
    and "Items s = Some items"
  shows "fieldType (Suc k) g name p =
           (case fieldType k g (name @ ''_item'') (Some items) of
              Inl e \<Rightarrow> Inl e
            | Inr (et, nested) \<Rightarrow>
                (case nested of
                   Some (nm, sch) \<Rightarrow> Inr (''repeated '' @ nm, nested)
                 | None \<Rightarrow> Inr (''repeated '' @ et, None)))"
  using assms by simp

lemma fieldType_map:
  assumes "resolveRef g p = Some s" and "Enum s = []" and "Type s = ''object''"
    and "propsOf s = []" and "AddlProps s \<noteq> None"
  shows "fieldType (Suc k) g name p =
           (case fieldType k g (name @ ''_value'') (AddlProps s) of
              Inl e \<Rightarrow> Inl e
            | Inr (vt, nested) \<Rightarrow>
                (case nested of
                   Some (nm, sch) \<Rightarrow> Inr (''map<string,'' @ nm @ ''>'', nested)
                 | None \<Rightarrow> Inr (''map<string,'' @ vt @ ''>'', None)))"
  using assms by (simp add: propsOf_def)

lemma fieldType_leaf:
  assumes "resolveRef g p = Some s"
    and "\<not> (Enum s = [] \<and> Type s = ''array'' \<and> Items s \<noteq> None)"
    and "\<not> (Enum s = [] \<and> Type s = ''object'' \<and> propsOf s = [] \<and> AddlProps s \<noteq> None)"
  shows "fieldType (Suc k) g name p = fieldType (Suc 0) g name p"
  using assms by (auto simp: propsOf_def split: option.splits)


lemma fieldType_fuel:
  "fieldType n g name p \<noteq> Inl FuelExhausted \<Longrightarrow> fieldType (Suc n) g name p = fieldType n g name p"
proof (induction n arbitrary: name p)
  case 0
  then show ?case by simp
next
  case (Suc n)
  show ?case
  proof (cases "resolveRef g p")
    case None
    then show ?thesis by (simp only: fieldType_nil)
  next
    case (Some s)
    consider
      (array) items where "Enum s = []" "Type s = ''array''" "Items s = Some items"
      | (map) "Enum s = []" "Type s = ''object''" "propsOf s = []" "AddlProps s \<noteq> None"
      | (leaf) "\<not> (Enum s = [] \<and> Type s = ''array'' \<and> Items s \<noteq> None)"
          "\<not> (Enum s = [] \<and> Type s = ''object'' \<and> propsOf s = [] \<and> AddlProps s \<noteq> None)"
      by blast
    then show ?thesis
    proof cases
      case array
      note unfold = fieldType_array [OF Some array]
      from Suc.prems have "fieldType n g (name @ ''_item'') (Some items) \<noteq> Inl FuelExhausted"
        by (auto simp only: unfold [of n] sum.case)
      from Suc.IH [OF this] show ?thesis
        by (simp only: unfold)
    next
      case map
      note unfold = fieldType_map [OF Some map]
      from Suc.prems have "fieldType n g (name @ ''_value'') (AddlProps s) \<noteq> Inl FuelExhausted"
        by (auto simp only: unfold [of n] sum.case)
      from Suc.IH [OF this] show ?thesis
        by (simp only: unfold)
    next
      case leaf
      from fieldType_leaf [OF Some leaf, of "Suc n"] fieldType_leaf [OF Some leaf, of n]
      show ?thesis by (simp only:)
    qed
  qed
qed

lemma emitProps_fuel:
  "emitProps n g vis msgName props names st \<noteq> Inl FuelExhausted \<Longrightarrow>
     emitProps (Suc n) g vis msgName props names st = emitProps n g vis msgName props names st"
proof (induction names arbitrary: st)
  case Nil
  show ?case by simp
next
  case (Cons pname rest)
  obtain acc num toEmit where st: "st = (acc, num, toEmit)"
    by (cases st) auto
  from Cons.prems have "fieldType n g pname (mapIndex props pname) \<noteq> Inl FuelExhausted"
    unfolding st by (auto simp del: fieldType.simps)
  then have ft: "fieldType (Suc n) g pname (mapIndex props pname)
      = fieldType n g pname (mapIndex props pname)"
    by (rule fieldType_fuel)
  show ?case
  proof (cases "fieldType n g pname (mapIndex props pname)")
    case (Inl e)
    with ft show ?thesis unfolding st by (simp del: fieldType.simps)
  next
    case (Inr r)
    show ?thesis
    proof (cases "mapIndex props pname")
      case None
      with Inr ft show ?thesis unfolding st by (simp del: fieldType.simps)
    next
      case (Some ps)
      obtain ptype te where fl: "flattenNested vis msgName r toEmit = (ptype, te)"
        by (cases "flattenNested vis msgName r toEmit") auto
      let ?next = "(acc @ [FieldDecl (if Nullable ps \<and> useOptional g \<and> isScalar ptype
                                       then ''optional '' else [])
                             ptype (normalizeField pname) num (Description ps)],
                    num + 1, te)"
      have now: "emitProps n g vis msgName props (pname # rest) st
          = emitProps n g vis msgName props rest ?next"
        unfolding st using Inr Some fl by (simp del: fieldType.simps)
      have later: "emitProps (Suc n) g vis msgName props (pname # rest) st
          = emitProps (Suc n) g vis msgName props rest ?next"
        unfolding st using Inr Some fl ft by (simp del: fieldType.simps)
      from Cons.prems now have "emitProps n g vis msgName props rest ?next \<noteq> Inl FuelExhausted"
        by simp
      from Cons.IH [OF this] now later show ?thesis
        by simp
    qed
  qed
qed


lemma emitChoices_fuel:
  "emitChoices n g vis msgName branches idx st \<noteq> Inl FuelExhausted \<Longrightarrow>
     emitChoices (Suc n) g vis msgName branches idx st = emitChoices n g vis msgName branches idx st"
proof (induction branches arbitrary: idx st)
  case Nil
  show ?case by simp
next
  case (Cons branch rest)
  obtain acc num toEmit where st: "st = (acc, num, toEmit)"
    by (cases st) auto
  from Cons.prems have "fieldType n g (''choice_'' @ fmt_d (idx + 1)) branch \<noteq> Inl FuelExhausted"
    unfolding st by (auto simp del: fieldType.simps)
  then have ft: "fieldType (Suc n) g (''choice_'' @ fmt_d (idx + 1)) branch
      = fieldType n g (''choice_'' @ fmt_d (idx + 1)) branch"
    by (rule fieldType_fuel)
  show ?case
  proof (cases "fieldType n g (''choice_'' @ fmt_d (idx + 1)) branch")
    case (Inl e)
    with ft show ?thesis unfolding st by (simp del: fieldType.simps)
  next
    case (Inr r)
    obtain pt te where fl: "flattenNested vis msgName r toEmit = (pt, te)"
      by (cases "flattenNested vis msgName r toEmit") auto
    let ?next = "(acc @ [ChoiceField pt (idx + 1) num], num + 1, te)"
    have now: "emitChoices n g vis msgName (branch # rest) idx st
        = emitChoices n g vis msgName rest (idx + 1) ?next"
      unfolding st using Inr fl by (simp del: fieldType.simps)
    have later: "emitChoices (Suc n) g vis msgName (branch # rest) idx st
        = emitChoices (Suc n) g vis msgName rest (idx + 1) ?next"
      unfolding st using Inr fl ft by (simp del: fieldType.simps)
    from Cons.prems now have "emitChoices n g vis msgName rest (idx + 1) ?next \<noteq> Inl FuelExhausted"
      by simp
    from Cons.IH [OF this] now later show ?thesis
      by simp
  qed
qed

lemma emitAlts_fuel:
  "emitAlts n g vis msgName branches idx st \<noteq> Inl FuelExhausted \<Longrightarrow>
     emitAlts (Suc n) g vis msgName branches idx st = emitAlts n g vis msgName branches idx st"
proof (induction branches arbitrary: idx st)
  case Nil
  show ?case by simp
next
  case (Cons branch rest)
  obtain acc num toEmit where st: "st = (acc, num, toEmit)"
    by (cases st) auto
  from Cons.prems have "fieldType n g (''alt_'' @ fmt_d (idx + 1)) branch \<noteq> Inl FuelExhausted"
    unfolding st by (auto simp del: fieldType.simps)
  then have ft: "fieldType (Suc n) g (''alt_'' @ fmt_d (idx + 1)) branch
      = fieldType n g (''alt_'' @ fmt_d (idx + 1)) branch"
    by (rule fieldType_fuel)
  show ?case
  proof (cases "fieldType n g (''alt_'' @ fmt_d (idx + 1)) branch")
    case (Inl e)
    with ft show ?thesis unfolding st by (simp del: fieldType.simps)
  next
    case (Inr r)
    obtain pt te where fl: "flattenNested vis msgName r toEmit = (pt, te)"
      by (cases "flattenNested vis msgName r toEmit") auto
    let ?next = "(acc @ [AltField pt (idx + 1) num], num + 1, te)"
    have now: "emitAlts n g vis msgName (branch # rest) idx st
        = emitAlts n g vis msgName rest (idx + 1) ?next"
      unfolding st using Inr fl by (simp del: fieldType.simps)
    have later: "emitAlts (Suc n) g vis msgName (branch # rest) idx st
        = emitAlts (Suc n) g vis msgName rest (idx + 1) ?next"
      unfolding st using Inr fl ft by (simp del: fieldType.simps)
    from Cons.prems now have "emitAlts n g vis msgName rest (idx + 1) ?next \<noteq> Inl FuelExhausted"
      by simp
    from Cons.IH [OF this] now later show ?thesis
      by simp
  qed
qed

lemma emitOneOf_fuel:
  assumes "emitOneOf n g vis msgName s st \<noteq> Inl FuelExhausted"
  shows "emitOneOf (Suc n) g vis msgName s st = emitOneOf n g vis msgName s st"
proof -
  obtain acc num toEmit where st: "st = (acc, num, toEmit)"
    by (cases st) auto
  show ?thesis
  proof (cases "length (sliceOf (OneOf s)) > 0")
    case False
    then show ?thesis by (simp add: emitOneOf_def st)
  next
    case True
    with assms have "emitChoices n g vis msgName (sliceOf (OneOf s)) 0 (acc @ [OneofOpen], num, toEmit)
        \<noteq> Inl FuelExhausted"
      by (auto simp: emitOneOf_def st)
    from emitChoices_fuel [OF this] show ?thesis
      by (simp add: emitOneOf_def st)
  qed
qed

lemma emitAnyOf_fuel:
  assumes "emitAnyOf n g vis msgName s st \<noteq> Inl FuelExhausted"
  shows "emitAnyOf (Suc n) g vis msgName s st = emitAnyOf n g vis msgName s st"
proof -
  obtain acc num toEmit where st: "st = (acc, num, toEmit)"
    by (cases st) auto
  show ?thesis
  proof (cases "sliceOf (AnyOf s)")
    case Nil
    then show ?thesis by (simp add: emitAnyOf_def st)
  next
    case (Cons first others)
    show ?thesis
    proof (cases "anyOfMode g = ''repeat''")
      case True
      with assms Cons have "fieldType n g ''anyof_value'' first \<noteq> Inl FuelExhausted"
        by (auto simp: emitAnyOf_def st simp del: fieldType.simps)
      from fieldType_fuel [OF this] Cons True show ?thesis
        by (simp add: emitAnyOf_def st del: fieldType.simps)
    next
      case False
      with assms Cons
      have "emitAlts n g vis msgName (first # others) 0 (acc @ [AnyofOpen], num, toEmit)
          \<noteq> Inl FuelExhausted"
        by (auto simp: emitAnyOf_def st simp del: emitAlts.simps)
      from emitAlts_fuel [OF this] Cons False show ?thesis
        by (simp add: emitAnyOf_def st del: emitAlts.simps)
    qed
  qed
qed

text \<open>An emitter that agrees with another wherever that one does not run out of depth.\<close>

lemma emitMapEntries_fuel:
  assumes ext: "\<And>st nm q. rec st nm q \<noteq> Inl FuelExhausted \<Longrightarrow> rec' st nm q = rec st nm q"
    and run: "emitMapEntries rec n g s props st \<noteq> Inl FuelExhausted"
  shows "emitMapEntries rec' (Suc n) g s props st = emitMapEntries rec n g s props st"
proof (cases "AddlProps s \<noteq> None \<and> length props = 0")
  case False
  then show ?thesis by (auto simp: emitMapEntries_def simp del: fieldType.simps)
next
  case True
  with run have "fieldType n g ''value'' (AddlProps s) \<noteq> Inl FuelExhausted"
    by (auto simp: emitMapEntries_def simp del: fieldType.simps)
  then have ft: "fieldType (Suc n) g ''value'' (AddlProps s) = fieldType n g ''value'' (AddlProps s)"
    by (rule fieldType_fuel)
  show ?thesis
  proof (cases "fieldType n g ''value'' (AddlProps s)")
    case (Inl e)
    with True ft show ?thesis by (simp add: emitMapEntries_def del: fieldType.simps)
  next
    case (Inr r)
    obtain valType nested where r: "r = (valType, nested)"
      by (cases r) auto
    show ?thesis
    proof (cases nested)
      case None
      with True ft Inr r show ?thesis by (simp add: emitMapEntries_def del: fieldType.simps)
    next
      case (Some pair)
      obtain nm sch where pair: "pair = (nm, sch)"
        by (cases pair) auto
      from run True Inr r Some pair have "rec st nm (Some sch) \<noteq> Inl FuelExhausted"
        by (auto simp: emitMapEntries_def simp del: fieldType.simps)
      from ext [OF this] True ft Inr r Some pair show ?thesis
        by (simp add: emitMapEntries_def del: fieldType.simps)
    qed
  qed
qed

lemma drain_fuel:
  assumes ext: "\<And>st nm q. rec st nm q \<noteq> Inl FuelExhausted \<Longrightarrow> rec' st nm q = rec st nm q"
  shows "drain rec st ps \<noteq> Inl FuelExhausted \<Longrightarrow> drain rec' st ps = drain rec st ps"
proof (induction ps arbitrary: st)
  case Nil
  show ?case by simp
next
  case (Cons p ps)
  from Cons.prems have "rec st (fst p) (Some (snd p)) \<noteq> Inl FuelExhausted"
    by auto
  note same = ext [OF this]
  show ?case
  proof (cases "rec st (fst p) (Some (snd p))")
    case (Inl e)
    with same show ?thesis by simp
  next
    case (Inr st')
    with Cons.prems have "drain rec st' ps \<noteq> Inl FuelExhausted"
      by simp
    from Cons.IH [OF this] Inr same show ?thesis
      by simp
  qed
qed


lemma emitMessage_fuel:
  assumes ext: "\<And>st nm q. rec st nm q \<noteq> Inl FuelExhausted \<Longrightarrow> rec' st nm q = rec st nm q"
    and run: "emitMessage rec n ro g st name s \<noteq> Inl FuelExhausted"
  shows "emitMessage rec' (Suc n) ro g st name s = emitMessage rec n ro g st name s"
proof (cases "mergedSchema g s")
  case (Inl e)
  then show ?thesis by (simp add: emitMessage_def)
next
  case merged: (Inr merged)
  let ?m = "normalizeMessage name"
  let ?props = "emitProps n g (visited st) ?m (propsOf merged)
      (propNamesOf ro g name (propsOf merged)) (builder st @ [MessageOpen ?m], 1, [])"
  from run merged have "?props \<noteq> Inl FuelExhausted"
    by (auto simp: emitMessage_def Let_def)
  note props_same = emitProps_fuel [OF this]
  show ?thesis
  proof (cases ?props)
    case (Inl e)
    with merged props_same show ?thesis by (simp add: emitMessage_def Let_def)
  next
    case props: (Inr body1)
    obtain out1 num1 te1 where body1: "body1 = (out1, num1, te1)"
      by (cases body1) auto
    let ?map = "emitMapEntries rec n g s (propsOf merged) (st\<lparr>builder := out1\<rparr>)"
    from run merged props body1 have "?map \<noteq> Inl FuelExhausted"
      by (auto simp: emitMessage_def Let_def)
    note map_same = emitMapEntries_fuel [of rec rec', OF ext this]
    show ?thesis
    proof (cases ?map)
      case (Inl e)
      with merged props body1 props_same map_same show ?thesis
        by (simp add: emitMessage_def Let_def)
    next
      case mapped: (Inr st2)
      let ?oneof = "emitOneOf n g (visited st2) ?m s (builder st2, num1, te1)"
      from run merged props body1 mapped have "?oneof \<noteq> Inl FuelExhausted"
        by (auto simp: emitMessage_def Let_def)
      note oneof_same = emitOneOf_fuel [OF this]
      show ?thesis
      proof (cases ?oneof)
        case (Inl e)
        with merged props body1 mapped props_same map_same oneof_same show ?thesis
          by (simp add: emitMessage_def Let_def)
      next
        case oneof: (Inr body3)
        let ?anyof = "emitAnyOf n g (visited st2) ?m s body3"
        from run merged props body1 mapped oneof have "?anyof \<noteq> Inl FuelExhausted"
          by (auto simp: emitMessage_def Let_def)
        note anyof_same = emitAnyOf_fuel [OF this]
        show ?thesis
        proof (cases ?anyof)
          case (Inl e)
          with merged props body1 mapped oneof props_same map_same oneof_same anyof_same
          show ?thesis
            by (simp add: emitMessage_def Let_def)
        next
          case anyof: (Inr body4)
          obtain out4 num4 te4 where body4: "body4 = (out4, num4, te4)"
            by (cases body4) auto
          from run merged props body1 mapped oneof anyof body4
          have "drain rec (st2\<lparr>builder := out4 @ [MessageClose]\<rparr>) te4 \<noteq> Inl FuelExhausted"
            by (auto simp: emitMessage_def Let_def)
          from drain_fuel [of rec rec', OF ext this]
            merged props body1 mapped oneof anyof body4 props_same map_same oneof_same anyof_same
          show ?thesis
            by (simp add: emitMessage_def Let_def)
        qed
      qed
    qed
  qed
qed

lemma emitSchema_fuel:
  "emitSchema n ro g st name p \<noteq> Inl FuelExhausted \<Longrightarrow>
     emitSchema (Suc n) ro g st name p = emitSchema n ro g st name p"
proof (induction n arbitrary: st name p)
  case 0
  then show ?case by simp
next
  case (Suc n)
  have ext: "emitSchema (Suc n) ro g st' nm q = emitSchema n ro g st' nm q"
    if "emitSchema n ro g st' nm q \<noteq> Inl FuelExhausted" for st' nm q
    using that by (rule Suc.IH)
  show ?case
  proof (cases "name \<in> visited st")
    case True
    then show ?thesis by simp
  next
    case fresh: False
    show ?thesis
    proof (cases "resolveRef g p")
      case None
      with fresh show ?thesis by simp
    next
      case (Some resolved)
      show ?thesis
      proof (cases "length (Enum resolved) > 0 \<or> \<not> isMessageShaped resolved")
        case True
        with fresh Some show ?thesis by (auto simp: Let_def)
      next
        case False
        let ?st1 = "st\<lparr>visited := insert name (visited st)\<rparr>"
        from False fresh Some Suc.prems
        have "emitMessage (emitSchema n ro g) n ro g ?st1 name resolved \<noteq> Inl FuelExhausted"
          by (simp add: Let_def)
        from emitMessage_fuel [of "emitSchema n ro g" "emitSchema (Suc n) ro g", OF ext this]
          False fresh Some
        show ?thesis
          by (simp add: Let_def)
      qed
    qed
  qed
qed

lemma emitAll_fuel:
  "emitAll n ro g st names \<noteq> Inl FuelExhausted \<Longrightarrow>
     emitAll (Suc n) ro g st names = emitAll n ro g st names"
proof (induction names arbitrary: st)
  case Nil
  show ?case by simp
next
  case (Cons name names)
  from Cons.prems have "emitSchema n ro g st name (mapIndex (doc g) name) \<noteq> Inl FuelExhausted"
    by (auto simp del: emitSchema.simps)
  note same = emitSchema_fuel [OF this]
  show ?case
  proof (cases "emitSchema n ro g st name (mapIndex (doc g) name)")
    case (Inl e)
    with same show ?thesis by (simp del: emitSchema.simps)
  next
    case (Inr st')
    with Cons.prems have "emitAll n ro g st' names \<noteq> Inl FuelExhausted"
      by (simp del: emitSchema.simps)
    from Cons.IH [OF this] Inr same show ?thesis
      by (simp del: emitSchema.simps)
  qed
qed

lemma generate_fuel_step:
  assumes "generate n ro pkg goPkg g \<noteq> Inl FuelExhausted"
  shows "generate (Suc n) ro pkg goPkg g = generate n ro pkg goPkg g"
proof (cases "length (doc g) = 0")
  case True
  then show ?thesis by (simp add: generate_def)
next
  case False
  let ?st = "\<lparr>visited = {}, builder = [SyntaxLine, PackageLine pkg, GoPackageLine goPkg]\<rparr>"
  from assms False have "emitAll n ro g ?st (schemaNames ro g) \<noteq> Inl FuelExhausted"
    by (auto simp: generate_def split: sum.splits)
  from emitAll_fuel [OF this] False show ?thesis
    by (simp add: generate_def)
qed

text \<open>
  The depth allowance decides nothing but whether a run is cut short: a run that ends
  within \<open>n\<close> calls, with output or with a panic, ends the same way within any larger
  allowance.
\<close>

theorem generate_fuel:
  assumes "generate n ro pkg goPkg g \<noteq> Inl FuelExhausted"
  shows "generate (n + k) ro pkg goPkg g = generate n ro pkg goPkg g"
proof (induction k)
  case 0
  show ?case by simp
next
  case (Suc k)
  with assms have "generate (n + k) ro pkg goPkg g \<noteq> Inl FuelExhausted"
    by simp
  from generate_fuel_step [OF this] Suc show ?case
    by simp
qed

section \<open>Runs of the emitter\<close>

text \<open>
  A bare scalar at the top level is wrapped in a message with the one field \<open>value\<close>.
\<close>

lemma count_wrapper_text:
  "map_sum id outputText
     (generate 2 listedOrder ''api.v1'' ''example.com/api''
        (ctxOf [(''Count'', Some (Schema [] ''integer'' ''int32'' [] None None None None None []
                                   False None []))] True))
     = Inr (''syntax = '' @ dq @ ''proto3'' @ dq @ '';'' @ nl
            @ ''package api.v1;'' @ nl
            @ ''option go_package = '' @ dq @ ''example.com/api'' @ dq @ '';'' @ nl @ nl
            @ ''// Primitive schema Count promoted to wrapper message'' @ nl
            @ ''message Count { int32 value = 1; }'' @ nl @ nl)"
  by code_simp

text \<open>
  C1: the field numbers of a message body are meant to run 1, 2, 3 and so on. The
  properties, the oneOf branches and the anyOf branches take their number from
  \<open>fieldNum\<close> and advance it; the map field is written with the number 1 and leaves
  \<open>fieldNum\<close> as it was. On a node with \<^verbatim>\<open>additionalProperties\<close> and \<^verbatim>\<open>oneOf\<close> the
  body therefore declares the number 1 twice.
\<close>

theorem map_entries_number_repeated:
  "generate 3 listedOrder ''api.v1'' ''example.com/api'' (ctxOf [(''Tagged'', Some taggedUnion)] True)
     = Inr [SyntaxLine, PackageLine ''api.v1'', GoPackageLine ''example.com/api'',
            MessageOpen ''Tagged'', MapEntries ''string'', OneofOpen,
            ChoiceField ''string'' 1 1, ChoiceField ''int64'' 2 2, GroupClose,
            MessageClose] \<and>
   fieldNumbers [MapEntries ''string'', OneofOpen, ChoiceField ''string'' 1 1,
                 ChoiceField ''int64'' 2 2, GroupClose] = [1, 1, 2]"
  by code_simp

text \<open>
  C2: the message for the values of a map is written at once, but by then the line that
  opens the enclosing message is already in the builder: the value message lands
  between that line and the \<open>entries\<close> field, inside the enclosing block, not ahead of it.
\<close>

theorem map_value_message_inside_parent:
  "generate 3 listedOrder ''api.v1'' ''example.com/api'' (ctxOf bookDoc True)
     = Inr [SyntaxLine, PackageLine ''api.v1'', GoPackageLine ''example.com/api'',
            MessageOpen ''AddressBook'',
            MessageOpen ''Value'', FieldDecl [] ''string'' ''city'' 1 [], MessageClose,
            MapEntries ''Value'', MessageClose]"
  by code_simp

text \<open>The same writes as text.\<close>

lemma map_value_message_text:
  "outputText [MessageOpen ''AddressBook'',
               MessageOpen ''Value'', FieldDecl [] ''string'' ''city'' 1 [], MessageClose,
               MapEntries ''Value'', MessageClose]
     = ''message AddressBook {'' @ nl
       @ ''message Value {'' @ nl
       @ ''  string city = 1;'' @ nl
       @ ''}'' @ nl @ nl
       @ ''  map<string,Value> entries = 1;'' @ nl
       @ ''}'' @ nl @ nl"
  by code_simp

text \<open>
  C3: for an array of objects \<open>fieldType\<close> answers \<open>repeated TagsItem\<close> together with
  the nested schema, and \<open>emitMessage\<close> then overwrites the whole type text with the
  flattened name: the field is declared with the bare message type.
\<close>

theorem repeated_lost_on_flatten:
  "fieldType 3 (ctxOf postDoc True) ''tags''
       (Some (arrayOf (objectNode [(''label'', Some (typeNode ''string''))])))
     = Inr (''repeated TagsItem'',
            Some (''TagsItem'', objectNode [(''label'', Some (typeNode ''string''))])) \<and>
   generate 3 listedOrder ''api.v1'' ''example.com/api'' (ctxOf postDoc True)
     = Inr [SyntaxLine, PackageLine ''api.v1'', GoPackageLine ''example.com/api'',
            MessageOpen ''Post'', FieldDecl [] ''PostTagsItem'' ''tags'' 1 [], MessageClose,
            MessageOpen ''PostTagsItem'', FieldDecl [] ''string'' ''label'' 1 [],
            MessageClose]"
  by code_simp

text \<open>
  C4: the value message of a map is emitted under the name \<open>Value\<close>, without the name
  of the enclosing message. With two maps in the registry the second finds \<open>Value\<close>
  already visited: its own value schema is never written, and its \<open>entries\<close> field
  names the message that was written inside the first.
\<close>

theorem map_value_name_without_parent:
  "generate 3 listedOrder ''api.v1'' ''example.com/api'' (ctxOf twoMapsDoc True)
     = Inr [SyntaxLine, PackageLine ''api.v1'', GoPackageLine ''example.com/api'',
            MessageOpen ''Labels'',
            MessageOpen ''Value'', FieldDecl [] ''string'' ''text'' 1 [], MessageClose,
            MapEntries ''Value'', MessageClose,
            MessageOpen ''Prices'', MapEntries ''Value'', MessageClose] \<and>
   normalizeMessage (''Labels'' @ ''_'' @ ''Value'') = ''LabelsValue''"
  by code_simp

end
